theory Spec2Isabelle
  imports Complex_Main "HOL-Library.AList"
begin

section \<open>Python strings\<close>

text \<open>
  A Python \<open>str\<close> is a sequence of Unicode code points; it is modelled as the list of
  its code points, so that \<open>len\<close>, slicing and the whitespace tests count what Python
  counts. A literal of the source is written \<open>str ''...''\<close> for its ASCII part.
\<close>

type_synonym pystr = "nat list"

abbreviation str :: "string \<Rightarrow> pystr" where
  "str s \<equiv> map of_char s"

text \<open>
  \<open>str.isspace\<close>, \<open>str.split()\<close>, \<open>str.strip()\<close> and the \<open>\s\<close> of a \<open>str\<close> pattern
  all use the same set of whitespace code points.
\<close>

definition is_space :: "nat \<Rightarrow> bool" where
  "is_space c \<longleftrightarrow>
     (9 \<le> c \<and> c \<le> 13) \<or> (28 \<le> c \<and> c \<le> 32) \<or> c = 133 \<or> c = 160 \<or> c = 5760 \<or>
     (8192 \<le> c \<and> c \<le> 8202) \<or> c = 8232 \<or> c = 8233 \<or> c = 8239 \<or> c = 8287 \<or> c = 12288"

text \<open>\<open>text.split()\<close>: the maximal runs of non-whitespace, in order; \<open>cur\<close> is the run being read.\<close>

fun split_acc :: "pystr \<Rightarrow> pystr \<Rightarrow> pystr list" where
  "split_acc cur [] = (if cur = [] then [] else [cur])"
| "split_acc cur (c # cs) =
     (if is_space c then (if cur = [] then split_acc [] cs else cur # split_acc [] cs)
      else split_acc (cur @ [c]) cs)"

definition py_split :: "pystr \<Rightarrow> pystr list" where
  "py_split text = split_acc [] text"

text \<open>\<open>sep.join(xs)\<close>.\<close>

fun py_join :: "pystr \<Rightarrow> pystr list \<Rightarrow> pystr" where
  "py_join sep [] = []"
| "py_join sep [x] = x"
| "py_join sep (x # y # ys) = x @ sep @ py_join sep (y # ys)"

text \<open>\<open>s.strip()\<close>.\<close>

definition py_strip :: "pystr \<Rightarrow> pystr" where
  "py_strip s = rev (dropWhile is_space (rev (dropWhile is_space s)))"

text \<open>
  \<open>xs[i:j]\<close> for arbitrary integers: a negative bound counts from the end, and both
  bounds are clamped to the list.
\<close>

definition slice_bound :: "int \<Rightarrow> int \<Rightarrow> nat" where
  "slice_bound n i = nat (if i < 0 then max (i + n) 0 else min i n)"

definition py_slice :: "'a list \<Rightarrow> int \<Rightarrow> int \<Rightarrow> 'a list" where
  "py_slice xs i j =
     (let n = int (length xs); lo = slice_bound n i; hi = slice_bound n j
      in take (hi - lo) (drop lo xs))"

text \<open>\<open>str(n)\<close> for an integer, as the f-strings of the source format it.\<close>

fun str_nat :: "nat \<Rightarrow> pystr" where
  "str_nat n = (if n < 10 then [48 + n] else str_nat (n div 10) @ [48 + n mod 10])"

definition str_int :: "int \<Rightarrow> pystr" where
  "str_int i = (if i < 0 then 45 # str_nat (nat (- i)) else str_nat (nat i))"

section \<open>Configuration (config.py)\<close>

definition MAIN_MODEL :: pystr where
  "MAIN_MODEL = str ''claude-opus-4-5''"

definition CHUNK_MODEL :: pystr where
  "CHUNK_MODEL = str ''claude-haiku-4-5-20251001''"

definition CHUNK_SIZE :: int where
  "CHUNK_SIZE = 3000"

definition CHUNK_OVERLAP :: int where
  "CHUNK_OVERLAP = 200"

section \<open>The chunker (pipeline.py, \<open>_chunk_text\<close>)\<close>

text \<open>
  The \<open>while\<close> loop of \<open>_chunk_text\<close>, with the two module constants it reads as
  parameters. The cursor \<open>i\<close> is a Python integer; the loop need not terminate, and
  \<open>None\<close> stands for a loop that never returns.
\<close>

partial_function (option) chunk_loop ::
  "int \<Rightarrow> int \<Rightarrow> pystr list \<Rightarrow> int \<Rightarrow> pystr list \<Rightarrow> pystr list option" where
  "chunk_loop max_size overlap words i chunks =
     (if i < int (length words) then
        (let chunk_words = py_slice words i (i + max_size);
             chunks' = chunks @ [py_join (str '' '') chunk_words]
         in if i + max_size \<ge> int (length words) then Some chunks'
            else chunk_loop max_size overlap words (i + (max_size - overlap)) chunks')
      else Some chunks)"

declare chunk_loop.simps [code]

definition chunk_text_with :: "int \<Rightarrow> int \<Rightarrow> pystr \<Rightarrow> pystr list option" where
  "chunk_text_with max_size overlap text = chunk_loop max_size overlap (py_split text) 0 []"

definition chunk_text :: "pystr \<Rightarrow> pystr list option" where
  "chunk_text text = chunk_text_with CHUNK_SIZE CHUNK_OVERLAP text"

section \<open>The model client (pipeline.py, \<open>_query_claude\<close>)\<close>

text \<open>
  An exception is what the pipeline can see of it: \<open>Raised c s\<close> is an exception raised
  by the backend, \<open>c\<close> telling whether its class derives from \<open>Exception\<close> (so that
  \<open>except Exception\<close> catches it) and \<open>s\<close> being \<open>str(e)\<close>; \<open>ValueError s\<close> is the
  exception \<open>_extract_json\<close> raises, with its message.
\<close>

datatype py_exception = Raised bool pystr | ValueError pystr

fun is_Exception :: "py_exception \<Rightarrow> bool" where
  "is_Exception (Raised c s) = c"
| "is_Exception (ValueError s) = True"

fun exc_str :: "py_exception \<Rightarrow> pystr" where
  "exc_str (Raised c s) = s"
| "exc_str (ValueError s) = s"

text \<open>
  A message of the SDK's stream has a \<open>content\<close> attribute or not, and a block of the
  content has a \<open>text\<close> attribute or not.
\<close>

datatype block = TextBlock pystr | OtherBlock

datatype message = WithContent "block list" | NoContent

text \<open>
  What the process does to the outside, in order: calls of the SDK's \<open>query\<close> (prompt,
  model), log records, and sleeps (\<open>asyncio.sleep\<close>, with the seconds asked for).
\<close>

datatype event =
    BackendCall pystr pystr
  | LogWarning pystr
  | LogInfo pystr
  | Sleep int

text \<open>
  The backend is a parameter: given the events so far, the prompt and the model, a call
  either yields its whole stream of messages or raises. (A stream that raises after some
  messages counts as raising: \<open>parts\<close> is rebuilt on every attempt.)
\<close>

type_synonym backend = "event list \<Rightarrow> pystr \<Rightarrow> pystr \<Rightarrow> py_exception + message list"

fun block_parts :: "block list \<Rightarrow> pystr list" where
  "block_parts [] = []"
| "block_parts (TextBlock t # bs) = t # block_parts bs"
| "block_parts (OtherBlock # bs) = block_parts bs"

fun message_parts :: "message list \<Rightarrow> pystr list" where
  "message_parts [] = []"
| "message_parts (WithContent bs # ms) = block_parts bs @ message_parts ms"
| "message_parts (NoContent # ms) = message_parts ms"

text \<open>
  \<open>str.lower()\<close>, as far as the test \<open>"rate_limit" in str(e).lower()\<close> can tell: the ASCII
  capitals, and U+0130, the one other code point whose lower case holds a letter of
  \<open>rate_limit\<close>. The case mappings left out produce no character of the pattern.
\<close>

fun lower_cp :: "nat \<Rightarrow> pystr" where
  "lower_cp c = (if 65 \<le> c \<and> c \<le> 90 then [c + 32] else if c = 304 then [105, 775] else [c])"

definition py_lower :: "pystr \<Rightarrow> pystr" where
  "py_lower s = concat (map lower_cp s)"

text \<open>\<open>sub in s\<close> for strings.\<close>

fun py_in :: "pystr \<Rightarrow> pystr \<Rightarrow> bool" where
  "py_in sub [] = (sub = [])"
| "py_in sub (c # cs) = (take (length sub) (c # cs) = sub \<or> py_in sub cs)"

definition is_rate_limit :: "py_exception \<Rightarrow> bool" where
  "is_rate_limit e = py_in (str ''rate_limit'') (py_lower (exc_str e))"

text \<open>\<open>range(n)\<close>.\<close>

definition py_range :: "int \<Rightarrow> int list" where
  "py_range n = map int [0..<nat n]"

definition rate_limit_warning :: "int \<Rightarrow> int \<Rightarrow> int \<Rightarrow> pystr" where
  "rate_limit_warning wait attempt retries =
     str ''Rate limited '' @ [8212] @ str '' waiting '' @ str_int wait @ str ''s before retry ''
     @ str_int (attempt + 2) @ str ''/'' @ str_int retries @ str ''...''"

text \<open>
  The \<open>for attempt in range(retries)\<close> loop, over the attempts still to make; the events
  so far are threaded through. Falling out of the loop returns the empty string.
\<close>

fun query_attempts ::
  "backend \<Rightarrow> pystr \<Rightarrow> pystr \<Rightarrow> int \<Rightarrow> int list \<Rightarrow> event list
     \<Rightarrow> (py_exception + pystr) \<times> event list" where
  "query_attempts b prompt model retries [] w = (Inr [], w)"
| "query_attempts b prompt model retries (attempt # rest) w =
     (let w1 = w @ [BackendCall prompt model] in
      case b w prompt model of
        Inr messages \<Rightarrow> (Inr (py_strip (concat (message_parts messages))), w1)
      | Inl e \<Rightarrow>
          if is_Exception e then
            (if is_rate_limit e \<and> attempt < retries - 1 then
               (let wait = 60 * (attempt + 1);
                    w2 = w1 @ [LogWarning (rate_limit_warning wait attempt retries), Sleep wait]
                in query_attempts b prompt model retries rest w2)
             else (Inl e, w1))
          else (Inl e, w1))"

definition query_claude ::
  "backend \<Rightarrow> pystr \<Rightarrow> pystr \<Rightarrow> int \<Rightarrow> event list \<Rightarrow> (py_exception + pystr) \<times> event list" where
  "query_claude b prompt model retries w =
     query_attempts b prompt model retries (py_range retries) w"

text \<open>
  What \<open>k\<close> rate-limited attempts in a row leave behind, the first of them being attempt
  \<open>i\<close>: for each, the call, the warning and the sleep of \<open>60 * (attempt + 1)\<close> seconds.
\<close>

fun retry_events :: "pystr \<Rightarrow> pystr \<Rightarrow> int \<Rightarrow> nat \<Rightarrow> nat \<Rightarrow> event list" where
  "retry_events prompt model retries i 0 = []"
| "retry_events prompt model retries i (Suc k) =
     [BackendCall prompt model,
      LogWarning (rate_limit_warning (60 * (int i + 1)) (int i) retries),
      Sleep (60 * (int i + 1))]
     @ retry_events prompt model retries (Suc i) k"

section \<open>The two regular expressions of \<open>_extract_json\<close>\<close>

text \<open>
  \<open>re.sub(r"```(?:json)?\s*", "", text)\<close>: scanning from the left, every occurrence of
  three backticks is deleted together with a \<open>json\<close> that follows it, if any, and all
  the whitespace after that; the scan goes on behind what was deleted. Nothing after the
  three backticks can fail to match, so the greedy choices are final.
\<close>

definition drop_json_tag :: "pystr \<Rightarrow> pystr" where
  "drop_json_tag s = (if take 4 s = str ''json'' then drop 4 s else s)"

function re_sub_fences :: "pystr \<Rightarrow> pystr" where
  "re_sub_fences [] = []"
| "re_sub_fences (c # cs) =
     (if c = 96 \<and> take 2 cs = [96, 96]
      then re_sub_fences (dropWhile is_space (drop_json_tag (drop 2 cs)))
      else c # re_sub_fences cs)"
  by pat_completeness auto
termination
proof (relation "measure length")
  fix c :: nat and cs :: pystr
  have "length (dropWhile is_space (drop_json_tag (drop 2 cs))) \<le> length cs"
    by (rule order_trans[OF length_dropWhile_le]) (simp add: drop_json_tag_def)
  then show "(dropWhile is_space (drop_json_tag (drop 2 cs)), c # cs) \<in> measure length"
    by simp
qed simp_all

text \<open>
  \<open>re.search(r"\{[\s\S]*\}", s)\<close>: the match starts at the first \<open>{\<close> and, the star being
  greedy and \<open>[\s\S]\<close> matching every character, ends at the last \<open>}\<close> of the string;
  there is no match when no \<open>}\<close> follows the first \<open>{\<close>.
\<close>

definition re_search_braces :: "pystr \<Rightarrow> pystr option" where
  "re_search_braces s =
     (case dropWhile (\<lambda>c. c \<noteq> 123) s of
        [] \<Rightarrow> None
      | b # rest \<Rightarrow>
          if 125 \<in> set rest then Some (b # rev (dropWhile (\<lambda>c. c \<noteq> 125) (rev rest)))
          else None)"

section \<open>The JSON decoder of the standard library (\<open>json.loads\<close>)\<close>

text \<open>
  \<open>json.loads\<close> belongs to Python, not to this repository. The general theorems below
  take the decoder as a parameter; the decoder written out here follows
  \<open>json.decoder\<close> and \<open>json.scanner\<close> and is what the concrete inputs are run on. A
  float is kept as the text handed to \<open>float()\<close>; the limits of the interpreter
  (recursion depth, length of integer literals) are not modelled.
\<close>

datatype json =
    JNull
  | JBool bool
  | JInt int
  | JFloat pystr
  | JString pystr
  | JArray "json list"
  | JObject "(pystr \<times> json) list"

definition is_json_ws :: "nat \<Rightarrow> bool" where
  "is_json_ws c \<longleftrightarrow> c = 32 \<or> c = 9 \<or> c = 10 \<or> c = 13"

definition skip_ws :: "pystr \<Rightarrow> pystr" where
  "skip_ws s = dropWhile is_json_ws s"

definition is_digit :: "nat \<Rightarrow> bool" where
  "is_digit c \<longleftrightarrow> 48 \<le> c \<and> c \<le> 57"

definition hex_val :: "nat \<Rightarrow> nat option" where
  "hex_val c =
     (if 48 \<le> c \<and> c \<le> 57 then Some (c - 48)
      else if 97 \<le> c \<and> c \<le> 102 then Some (c - 87)
      else if 65 \<le> c \<and> c \<le> 70 then Some (c - 55)
      else None)"

fun decode_uXXXX :: "pystr \<Rightarrow> nat option" where
  "decode_uXXXX (a # b # c # d # s) =
     (case (hex_val a, hex_val b, hex_val c, hex_val d) of
        (Some x, Some y, Some z, Some u) \<Rightarrow> Some (((x * 16 + y) * 16 + z) * 16 + u)
      | _ \<Rightarrow> None)"
| "decode_uXXXX s = None"

definition backslash :: "nat \<Rightarrow> nat option" where
  "backslash esc =
     (if esc = 34 \<or> esc = 92 \<or> esc = 47 then Some esc
      else if esc = 98 then Some 8
      else if esc = 102 then Some 12
      else if esc = 110 then Some 10
      else if esc = 114 then Some 13
      else if esc = 116 then Some 9
      else None)"

definition cons_char :: "nat \<Rightarrow> (pystr \<times> pystr) option \<Rightarrow> (pystr \<times> pystr) option" where
  "cons_char c r = (case r of None \<Rightarrow> None | Some (v, rest) \<Rightarrow> Some (c # v, rest))"

text \<open>
  \<open>scanstring\<close> (strict), started behind the opening quote: the decoded string and what
  follows the closing quote.
\<close>

function scanstring :: "pystr \<Rightarrow> (pystr \<times> pystr) option" where
  "scanstring [] = None"
| "scanstring (c # cs) =
     (if c = 34 then Some ([], cs)
      else if c = 92 then
        (case cs of
           [] \<Rightarrow> None
         | esc # cs1 \<Rightarrow>
             if esc = 117 then
               (case decode_uXXXX cs1 of
                  None \<Rightarrow> None
                | Some uni \<Rightarrow>
                    if 55296 \<le> uni \<and> uni \<le> 56319 \<and> take 2 (drop 4 cs1) = [92, 117] then
                      (case decode_uXXXX (drop 6 cs1) of
                         None \<Rightarrow> None
                       | Some uni2 \<Rightarrow>
                           if 56320 \<le> uni2 \<and> uni2 \<le> 57343
                           then cons_char (65536 + ((uni - 55296) * 1024 + (uni2 - 56320)))
                                  (scanstring (drop 10 cs1))
                           else cons_char uni (scanstring (drop 4 cs1)))
                    else cons_char uni (scanstring (drop 4 cs1)))
             else
               (case backslash esc of
                  None \<Rightarrow> None
                | Some ch \<Rightarrow> cons_char ch (scanstring cs1)))
      else if c < 32 then None
      else cons_char c (scanstring cs))"
  by pat_completeness auto
termination
  by (relation "measure length") simp_all

text \<open>
  The number pattern \<open>(-?(?:0|[1-9]\d*))(\.\d+)?([eE][-+]?\d+)?\<close>, group by group: the text
  matched and what follows it.
\<close>

definition match_integer :: "pystr \<Rightarrow> (pystr \<times> pystr) option" where
  "match_integer s =
     (let (sign, s1) = (case s of [] \<Rightarrow> ([], s) | c # r \<Rightarrow> if c = 45 then ([c], r) else ([], s))
      in case s1 of
           [] \<Rightarrow> None
         | d # s2 \<Rightarrow>
             if d = 48 then Some (sign @ [d], s2)
             else if 49 \<le> d \<and> d \<le> 57
               then Some (sign @ d # takeWhile is_digit s2, dropWhile is_digit s2)
             else None)"

fun match_frac :: "pystr \<Rightarrow> pystr \<times> pystr" where
  "match_frac (p # d # s) =
     (if p = 46 \<and> is_digit d then (p # d # takeWhile is_digit s, dropWhile is_digit s)
      else ([], p # d # s))"
| "match_frac s = ([], s)"

definition match_exp :: "pystr \<Rightarrow> pystr \<times> pystr" where
  "match_exp s =
     (case s of
        [] \<Rightarrow> ([], s)
      | e # s1 \<Rightarrow>
          if e = 101 \<or> e = 69 then
            (let (sign, s2) =
                   (case s1 of [] \<Rightarrow> ([], s1)
                    | c # r \<Rightarrow> if c = 43 \<or> c = 45 then ([c], r) else ([], s1))
             in case s2 of
                  [] \<Rightarrow> ([], s)
                | d # s3 \<Rightarrow>
                    if is_digit d
                    then (e # sign @ d # takeWhile is_digit s3, dropWhile is_digit s3)
                    else ([], s))
          else ([], s))"

definition nat_of_digits :: "pystr \<Rightarrow> nat" where
  "nat_of_digits ds = foldl (\<lambda>a d. 10 * a + (d - 48)) 0 ds"

definition parse_int :: "pystr \<Rightarrow> int" where
  "parse_int s =
     (case s of
        [] \<Rightarrow> 0
      | c # r \<Rightarrow> if c = 45 then - int (nat_of_digits r) else int (nat_of_digits s))"

definition match_number :: "pystr \<Rightarrow> (json \<times> pystr) option" where
  "match_number s =
     (case match_integer s of
        None \<Rightarrow> None
      | Some (integer, s1) \<Rightarrow>
          (let (frac, s2) = match_frac s1; (exp, s3) = match_exp s2
           in if frac \<noteq> [] \<or> exp \<noteq> [] then Some (JFloat (integer @ frac @ exp), s3)
              else Some (JInt (parse_int integer), s3)))"

text \<open>\<open>dict(pairs)\<close>: a later pair replaces the value of an equal earlier key, in its place.\<close>

definition py_dict :: "(pystr \<times> json) list \<Rightarrow> (pystr \<times> json) list" where
  "py_dict pairs = foldl (\<lambda>d (k, v). AList.update k v d) [] pairs"

text \<open>
  \<open>scan_once\<close> with the loops of \<open>JSONObject\<close> and \<open>JSONArray\<close>. The first argument
  bounds the number of nested calls; \<open>json_loads\<close> starts it above the length of the
  text, which no decoding exhausts (\<open>scan_once_fuel\<close> below).
\<close>

fun scan_once :: "nat \<Rightarrow> pystr \<Rightarrow> (json \<times> pystr) option"
  and JSONObject_loop :: "nat \<Rightarrow> pystr \<Rightarrow> (pystr \<times> json) list \<Rightarrow> (json \<times> pystr) option"
  and JSONArray_loop :: "nat \<Rightarrow> pystr \<Rightarrow> json list \<Rightarrow> (json \<times> pystr) option" where
  "scan_once 0 s = None"
| "scan_once (Suc n) [] = None"
| "scan_once (Suc n) (c # cs) =
     (if c = 34 then
        (case scanstring cs of None \<Rightarrow> None | Some (v, rest) \<Rightarrow> Some (JString v, rest))
      else if c = 123 then
        (case skip_ws cs of
           [] \<Rightarrow> None
         | d # rest \<Rightarrow>
             if d = 125 then Some (JObject [], rest)
             else if d = 34 then JSONObject_loop n rest []
             else None)
      else if c = 91 then
        (case skip_ws cs of
           [] \<Rightarrow> None
         | d # rest \<Rightarrow>
             if d = 93 then Some (JArray [], rest)
             else JSONArray_loop n (d # rest) [])
      else if c = 110 \<and> take 4 (c # cs) = str ''null'' then Some (JNull, drop 4 (c # cs))
      else if c = 116 \<and> take 4 (c # cs) = str ''true'' then Some (JBool True, drop 4 (c # cs))
      else if c = 102 \<and> take 5 (c # cs) = str ''false'' then Some (JBool False, drop 5 (c # cs))
      else
        (case match_number (c # cs) of
           Some r \<Rightarrow> Some r
         | None \<Rightarrow>
             if c = 78 \<and> take 3 (c # cs) = str ''NaN''
               then Some (JFloat (str ''NaN''), drop 3 (c # cs))
             else if c = 73 \<and> take 8 (c # cs) = str ''Infinity''
               then Some (JFloat (str ''Infinity''), drop 8 (c # cs))
             else if c = 45 \<and> take 9 (c # cs) = str ''-Infinity''
               then Some (JFloat (str ''-Infinity''), drop 9 (c # cs))
             else None))"
| "JSONObject_loop 0 s pairs = None"
| "JSONObject_loop (Suc n) s pairs =
     (case scanstring s of
        None \<Rightarrow> None
      | Some (key, s1) \<Rightarrow>
          (case skip_ws s1 of
             [] \<Rightarrow> None
           | c # s2 \<Rightarrow>
               if c \<noteq> 58 then None
               else
                 (case scan_once n (skip_ws s2) of
                    None \<Rightarrow> None
                  | Some (val, s3) \<Rightarrow>
                      (case skip_ws s3 of
                         [] \<Rightarrow> None
                       | d # s4 \<Rightarrow>
                           if d = 125 then Some (JObject (py_dict (pairs @ [(key, val)])), s4)
                           else if d \<noteq> 44 then None
                           else
                             (case skip_ws s4 of
                                [] \<Rightarrow> None
                              | q # s5 \<Rightarrow>
                                  if q = 34 then JSONObject_loop n s5 (pairs @ [(key, val)])
                                  else None)))))"
| "JSONArray_loop 0 s vals = None"
| "JSONArray_loop (Suc n) s vals =
     (case scan_once n s of
        None \<Rightarrow> None
      | Some (val, s1) \<Rightarrow>
          (case skip_ws s1 of
             [] \<Rightarrow> None
           | d # s2 \<Rightarrow>
               if d = 93 then Some (JArray (vals @ [val]), s2)
               else if d \<noteq> 44 then None
               else JSONArray_loop n (skip_ws s2) (vals @ [val])))"

text \<open>\<open>json.loads(s)\<close> for a \<open>str\<close>; \<open>None\<close> is \<open>JSONDecodeError\<close>.\<close>

definition json_loads :: "pystr \<Rightarrow> json option" where
  "json_loads s =
     (if take 1 s = [65279] then None
      else
        (case scan_once (Suc (length s)) (skip_ws s) of
           None \<Rightarrow> None
         | Some (obj, rest) \<Rightarrow> if skip_ws rest = [] then Some obj else None))"

section \<open>The response parser (pipeline.py, \<open>_extract_json\<close>)\<close>

definition parse_error :: "pystr \<Rightarrow> py_exception" where
  "parse_error text =
     ValueError (str ''Could not parse JSON from Claude response:\<newline>'' @ take 400 text)"

definition fence_clean :: "pystr \<Rightarrow> pystr" where
  "fence_clean text = py_strip (re_sub_fences text)"

definition extract_json_with :: "(pystr \<Rightarrow> json option) \<Rightarrow> pystr \<Rightarrow> py_exception + json" where
  "extract_json_with loads text =
     (let cleaned = fence_clean text in
      case loads cleaned of
        Some v \<Rightarrow> Inr v
      | None \<Rightarrow>
          (case re_search_braces cleaned of
             Some m \<Rightarrow>
               (case loads m of
                  Some v \<Rightarrow> Inr v
                | None \<Rightarrow> Inl (parse_error text))
           | None \<Rightarrow> Inl (parse_error text)))"

definition extract_json :: "pystr \<Rightarrow> py_exception + json" where
  "extract_json text = extract_json_with json_loads text"

section \<open>Prompts\<close>

definition JSON_SCHEMA :: pystr where
  \<open>JSON_SCHEMA = str
''{
  "title": "string",
  "summary": "string (1-2 paragraphs, max 150 words)",
  "contributions": [{"label": "string", "text": "string"}],
  "limitations": [{"label": "string", "text": "string"}],
  "question": "string"
}''\<close>

definition JSON_RULES :: pystr where
  \<open>JSON_RULES = str
''Rules:
- contributions: 2 to 4 items
- limitations: 1 to 3 items
- Total words across summary + contributions + limitations + question: max 500
- Return ONLY valid JSON '' @ [8212] @ str '' no markdown, no code fences, no explanations''\<close>

definition build_summary_prompt :: "pystr \<Rightarrow> pystr \<Rightarrow> pystr" where
  \<open>build_summary_prompt text filename = str
''You are an academic paper summarizer.

Analyze the following paper and return a structured JSON summary with this exact schema:
'' @ JSON_SCHEMA @ str ''

The "title" should be the actual paper title if detectable, otherwise use "'' @ filename @ str ''".
'' @ JSON_RULES @ str ''

Paper text:
'' @ text\<close>

definition build_chunk_prompt :: "pystr \<Rightarrow> int \<Rightarrow> int \<Rightarrow> pystr" where
  \<open>build_chunk_prompt chunk chunk_num tot = str
''Summarize portion '' @ str_int chunk_num @ str ''/'' @ str_int tot @ str '' of an academic paper.
Extract the main points, any contributions mentioned, and any limitations mentioned.
Return a concise paragraph of at most 100 words.
Return ONLY the summary text, no labels or JSON.

Text:
'' @ chunk\<close>

definition build_consolidation_prompt :: "pystr \<Rightarrow> pystr \<Rightarrow> pystr" where
  \<open>build_consolidation_prompt summaries filename = str
''You are an academic paper summarizer.
The following are partial summaries of consecutive chunks from a long academic paper.

Consolidate them into a single structured JSON summary with this exact schema:
'' @ JSON_SCHEMA @ str ''

The "title" should be the actual paper title if detectable, otherwise use "'' @ filename @ str ''".
'' @ JSON_RULES @ str ''

Partial summaries:
'' @ summaries\<close>

section \<open>The orchestrator (pipeline.py, \<open>run_pipeline\<close>)\<close>

text \<open>
  \<open>run_pipeline\<close> reaches the model only through the module-level name
  \<open>_query_claude\<close> and the log only through \<open>logging.info\<close>. Its body is written over
  these two, the state \<open>'w\<close> of the outside being theirs; \<open>run_pipeline\<close> below binds
  them to the client above (with its default of three attempts) and to the event list.
\<close>

type_synonym 'w client = "pystr \<Rightarrow> pystr \<Rightarrow> 'w \<Rightarrow> (py_exception + pystr) \<times> 'w"

text \<open>The loop \<open>for i, c in enumerate(chunks)\<close>; an exception of the client leaves it.\<close>

fun summarise_chunks ::
  "'w client \<Rightarrow> (pystr \<Rightarrow> 'w \<Rightarrow> 'w) \<Rightarrow> int \<Rightarrow> (nat \<times> pystr) list \<Rightarrow> pystr list \<Rightarrow> 'w
     \<Rightarrow> (py_exception + pystr list) \<times> 'w" where
  "summarise_chunks qc info len_chunks [] chunk_summaries w = (Inr chunk_summaries, w)"
| "summarise_chunks qc info len_chunks ((i, c) # rest) chunk_summaries w =
     (let w1 = info (str ''Summarising chunk '' @ str_int (int i + 1) @ str ''/''
                     @ str_int len_chunks @ str ''...'') w
      in case qc (build_chunk_prompt c (int i + 1) len_chunks) CHUNK_MODEL w1 of
           (Inl e, w2) \<Rightarrow> (Inl e, w2)
         | (Inr summary, w2) \<Rightarrow>
             summarise_chunks qc info len_chunks rest (chunk_summaries @ [summary]) w2)"

text \<open>
  The result is \<open>None\<close> when the chunker does not return; otherwise the value returned or
  the exception raised, with the state of the outside.
\<close>

definition run_pipeline_with ::
  "'w client \<Rightarrow> (pystr \<Rightarrow> 'w \<Rightarrow> 'w) \<Rightarrow> pystr \<Rightarrow> pystr \<Rightarrow> 'w
     \<Rightarrow> ((py_exception + json) \<times> 'w) option" where
  "run_pipeline_with qc info text filename w =
     (let word_count = int (length (py_split text));
          answer =
            (if word_count > CHUNK_SIZE then
               (let w1 = info (str ''Text exceeds '' @ str_int CHUNK_SIZE @ str '' words (''
                               @ str_int word_count @ str ''), chunking...'') w
                in case chunk_text text of
                     None \<Rightarrow> None
                   | Some chunks \<Rightarrow>
                       (let w2 = info (str ''Split into '' @ str_int (int (length chunks))
                                       @ str '' chunks'') w1
                        in case summarise_chunks qc info (int (length chunks))
                                  (enumerate 0 chunks) [] w2 of
                             (Inl e, w3) \<Rightarrow> Some (Inl e, w3)
                           | (Inr chunk_summaries, w3) \<Rightarrow>
                               (let consolidated = py_join (str ''\<newline>\<newline>'') chunk_summaries;
                                    w4 = info (str ''Consolidating chunk summaries with main model...'') w3
                                in Some (qc (build_consolidation_prompt consolidated filename)
                                           MAIN_MODEL w4))))
             else Some (qc (build_summary_prompt text filename) MAIN_MODEL w))
      in case answer of
           None \<Rightarrow> None
         | Some (Inl e, w5) \<Rightarrow> Some (Inl e, w5)
         | Some (Inr response, w5) \<Rightarrow>
             Some (extract_json response, info (str ''Summary generated'') w5))"

definition log_info :: "pystr \<Rightarrow> event list \<Rightarrow> event list" where
  "log_info msg w = w @ [LogInfo msg]"

definition run_pipeline ::
  "backend \<Rightarrow> pystr \<Rightarrow> pystr \<Rightarrow> event list \<Rightarrow> ((py_exception + json) \<times> event list) option" where
  "run_pipeline b text filename w =
     run_pipeline_with (\<lambda>prompt model. query_claude b prompt model 3) log_info text filename w"

section \<open>Observing the calls of the model client\<close>

text \<open>
  To state which calls the orchestrator makes, a client is wrapped so that it also
  records every call made to it: prompt, model, and what the call returned or raised.
  The wrapped client behaves as the client does (\<open>run_pipeline_with_recording\<close> below).
\<close>

type_synonym call = "pystr \<times> pystr \<times> (py_exception + pystr)"

definition recording :: "'w client \<Rightarrow> ('w \<times> call list) client" where
  "recording qc prompt model = (\<lambda>(w, calls).
     (case qc prompt model w of (r, w') \<Rightarrow> (r, (w', calls @ [(prompt, model, r)]))))"

definition lift_info :: "(pystr \<Rightarrow> 'w \<Rightarrow> 'w) \<Rightarrow> pystr \<Rightarrow> 'w \<times> call list \<Rightarrow> 'w \<times> call list" where
  "lift_info info msg = (\<lambda>(w, calls). (info msg w, calls))"

text \<open>
  The calls of the chunk loop: the chunk prompt of each chunk, numbered from one, to the
  chunk model, in the order of the chunks, each with its answer.
\<close>

definition chunk_calls :: "pystr list \<Rightarrow> (py_exception + pystr) list \<Rightarrow> call list" where
  "chunk_calls chunks answers =
     map (\<lambda>((i, c), a). (build_chunk_prompt c (int i + 1) (int (length chunks)), CHUNK_MODEL, a))
       (zip (enumerate 0 chunks) answers)"

text \<open>What \<open>run_pipeline\<close> makes of the answer to its last call.\<close>

definition parsed :: "py_exception + pystr \<Rightarrow> py_exception + json" where
  "parsed r = (case r of Inl e \<Rightarrow> Inl e | Inr response \<Rightarrow> extract_json response)"

text \<open>The words of a list with indices in \<open>[a, b)\<close>.\<close>

definition word_range :: "'a list \<Rightarrow> nat \<Rightarrow> nat \<Rightarrow> 'a list" where
  "word_range ws a b = take (b - a) (drop a ws)"

section \<open>Facts about splitting and joining\<close>

lemma split_acc_words:
  assumes "\<forall>c\<in>set cur. \<not> is_space c" "w \<in> set (split_acc cur s)"
  shows "w \<noteq> [] \<and> (\<forall>c\<in>set w. \<not> is_space c)"
  using assms
proof (induction s arbitrary: cur)
  case Nil
  then show ?case by (auto split: if_splits)
next
  case (Cons c s)
  show ?case
  proof (cases "is_space c")
    case True
    with Cons.prems have "w = cur \<and> cur \<noteq> [] \<or> w \<in> set (split_acc [] s)"
      by (auto split: if_splits)
    then show ?thesis using Cons.IH[of "[]"] Cons.prems(1) by auto
  next
    case False
    with Cons.prems have "w \<in> set (split_acc (cur @ [c]) s)" by simp
    moreover have "\<forall>d\<in>set (cur @ [c]). \<not> is_space d" using False Cons.prems(1) by simp
    ultimately show ?thesis using Cons.IH by blast
  qed
qed

lemma py_split_words:
  "w \<in> set (py_split text) \<Longrightarrow> w \<noteq> [] \<and> (\<forall>c\<in>set w. \<not> is_space c)"
  unfolding py_split_def using split_acc_words[of "[]" w "text"] by simp

lemma split_acc_word:
  "\<forall>c\<in>set w. \<not> is_space c \<Longrightarrow> split_acc cur (w @ s) = split_acc (cur @ w) s"
  by (induction w arbitrary: cur) simp_all

lemma is_space_32: "is_space 32"
  by (simp add: is_space_def)

lemma py_split_join:
  assumes "\<forall>w\<in>set ws. w \<noteq> [] \<and> (\<forall>c\<in>set w. \<not> is_space c)"
  shows "py_split (py_join [32] ws) = ws"
  using assms
proof (induction ws rule: induct_list012)
  case 1
  show ?case by (simp add: py_split_def)
next
  case (2 x)
  then have "split_acc [] (x @ []) = split_acc ([] @ x) []" by (intro split_acc_word) simp
  with 2 show ?case by (simp add: py_split_def)
next
  case (3 x y zs)
  from 3(3) have x: "x \<noteq> []" "\<forall>c\<in>set x. \<not> is_space c" by simp_all
  have "split_acc [] (x @ 32 # py_join [32] (y # zs)) = split_acc ([] @ x) (32 # py_join [32] (y # zs))"
    using x(2) by (rule split_acc_word)
  also have "\<dots> = x # split_acc [] (py_join [32] (y # zs))"
    using x(1) by (simp add: is_space_32)
  also have "split_acc [] (py_join [32] (y # zs)) = y # zs"
    using 3(2) 3(3) by (simp add: py_split_def)
  finally show ?case by (simp add: py_split_def)
qed

lemma py_split_join_range:
  "py_split (py_join [32] (word_range (py_split text) a b)) = word_range (py_split text) a b"
proof (rule py_split_join, intro ballI)
  fix w assume "w \<in> set (word_range (py_split text) a b)"
  then have "w \<in> set (py_split text)"
    unfolding word_range_def by (meson in_set_dropD in_set_takeD)
  then show "w \<noteq> [] \<and> (\<forall>c\<in>set w. \<not> is_space c)" by (rule py_split_words)
qed

lemma py_split_replicate:
  "py_split (concat (replicate n [97, 32])) = replicate n [97]"
proof -
  have "split_acc [] (concat (replicate n [97, 32])) = replicate n [97]"
    by (induction n) (simp_all add: is_space_def)
  then show ?thesis by (simp add: py_split_def)
qed

lemma slice_bound_nat: "slice_bound (int n) (int a) = min a n"
  by (simp add: slice_bound_def)

lemma py_slice_nat: "py_slice xs (int a) (int b) = word_range xs a b"
proof (cases "a \<le> length xs")
  case True
  then show ?thesis
    by (simp add: py_slice_def word_range_def slice_bound_nat Let_def min_def)
next
  case False
  then show ?thesis
    by (simp add: py_slice_def word_range_def slice_bound_nat Let_def min_def)
qed

lemma word_range_all: "length ws \<le> b \<Longrightarrow> word_range ws 0 b = ws"
  by (simp add: word_range_def)

section \<open>The chunker's loop\<close>

lemma chunk_loop_terminates:
  assumes "overlap < max_size"
  shows "\<exists>cs. chunk_loop max_size overlap words i acc = Some cs"
proof (induction "nat (int (length words) - i)" arbitrary: i acc rule: less_induct)
  case less
  show ?case
  proof (cases "i < int (length words)")
    case False
    then show ?thesis by (subst chunk_loop.simps) simp
  next
    case True
    show ?thesis
    proof (cases "i + max_size \<ge> int (length words)")
      case True
      with \<open>i < int (length words)\<close> show ?thesis by (subst chunk_loop.simps) simp
    next
      case False
      have "nat (int (length words) - (i + (max_size - overlap))) < nat (int (length words) - i)"
        using assms True by linarith
      from less[OF this] obtain cs where
        "chunk_loop max_size overlap words (i + (max_size - overlap))
           (acc @ [py_join (str '' '') (py_slice words i (i + max_size))]) = Some cs"
        by blast
      with True False show ?thesis by (subst chunk_loop.simps) (simp add: Let_def)
    qed
  qed
qed

lemma chunk_loop_diverges:
  assumes "max_size \<le> overlap" "max_size < int (length words)" "words \<noteq> []" "i \<le> 0"
  shows "chunk_loop max_size overlap words i acc = None"
proof (rule ccontr)
  assume "chunk_loop max_size overlap words i acc \<noteq> None"
  then obtain r where r: "chunk_loop max_size overlap words i acc = Some r" by auto
  have "\<not> (max_size \<le> overlap \<and> max_size < int (length words) \<and> words \<noteq> [] \<and> i \<le> 0)"
  proof (rule chunk_loop.raw_induct
      [where P = "\<lambda>ms ov ws j a y. \<not> (ms \<le> ov \<and> ms < int (length ws) \<and> ws \<noteq> [] \<and> j \<le> 0)", OF _ r])
    fix f :: "int \<Rightarrow> int \<Rightarrow> pystr list \<Rightarrow> int \<Rightarrow> pystr list \<Rightarrow> pystr list option"
    fix ms ov ws j a y
    assume IH: "\<And>ms ov ws j a y. f ms ov ws j a = Some y \<Longrightarrow>
                  \<not> (ms \<le> ov \<and> ms < int (length ws) \<and> ws \<noteq> [] \<and> j \<le> 0)"
    assume eq: "(if j < int (length ws)
                 then let chunk_words = py_slice ws j (j + ms);
                          chunks' = a @ [py_join (str '' '') chunk_words]
                      in if int (length ws) \<le> j + ms then Some chunks'
                         else f ms ov ws (j + (ms - ov)) chunks'
                 else Some a) = Some y"
    show "\<not> (ms \<le> ov \<and> ms < int (length ws) \<and> ws \<noteq> [] \<and> j \<le> 0)"
    proof
      assume inv: "ms \<le> ov \<and> ms < int (length ws) \<and> ws \<noteq> [] \<and> j \<le> 0"
      then have "0 < int (length ws)" by simp
      with inv have "j < int (length ws)" "\<not> int (length ws) \<le> j + ms" by linarith+
      with eq have "f ms ov ws (j + (ms - ov))
          (a @ [py_join (str '' '') (py_slice ws j (j + ms))]) = Some y"
        by (simp add: Let_def)
      from IH[OF this] inv show False by auto
    qed
  qed
  with assms show False by simp
qed

lemma chunk_loop_empty: "chunk_loop max_size overlap [] 0 [] = Some []"
  by (subst chunk_loop.simps) simp

lemma chunk_loop_single:
  assumes "words \<noteq> []" "int (length words) \<le> max_size"
  shows "chunk_loop max_size overlap words 0 [] = Some [py_join [32] words]"
proof -
  from assms have pos: "0 < int (length words)" by simp
  have "py_slice words 0 (0 + max_size) = py_slice words (int 0) (int (nat max_size))"
    using assms pos by simp
  also have "\<dots> = words"
    unfolding py_slice_nat using assms(2) by (intro word_range_all) linarith
  finally have "py_slice words 0 (0 + max_size) = words" .
  with pos assms(2) show ?thesis by (subst chunk_loop.simps) (simp add: Let_def)
qed

text \<open>
  With \<open>0 \<le> overlap < max_size\<close>, the loop started at a cursor inside the words makes
  \<open>m\<close> chunks, the \<open>k\<close>-th starting \<open>k\<close> steps behind the cursor; the last one reaches
  the end of the words and no earlier one does.
\<close>

lemma chunk_loop_spec:
  assumes "0 \<le> overlap" "overlap < max_size" "i < int (length words)"
  shows "\<exists>m\<ge>1. chunk_loop max_size overlap words i acc
            = Some (acc @ map (\<lambda>k. py_join [32] (py_slice words (i + int k * (max_size - overlap))
                                       (i + int k * (max_size - overlap) + max_size))) [0..<m])
          \<and> int (length words) \<le> i + int (m - 1) * (max_size - overlap) + max_size
          \<and> (\<forall>k. Suc k < m \<longrightarrow> i + int k * (max_size - overlap) + max_size < int (length words))"
  using assms(3)
proof (induction "nat (int (length words) - i)" arbitrary: i acc rule: less_induct)
  case less
  let ?L = "int (length words)" and ?step = "max_size - overlap"
  let ?at = "\<lambda>i k. py_join [32] (py_slice words (i + int k * ?step) (i + int k * ?step + max_size))"
  show ?case
  proof (cases "i + max_size \<ge> ?L")
    case True
    with less.prems have "chunk_loop max_size overlap words i acc = Some (acc @ map (?at i) [0..<1])"
      by (subst chunk_loop.simps) simp
    with True show ?thesis by (intro exI[of _ 1]) simp
  next
    case False
    have lt: "i + ?step < ?L" using False assms by linarith
    have "nat (?L - (i + ?step)) < nat (?L - i)" using assms less.prems by linarith
    from less.hyps[OF this lt, of "acc @ [?at i 0]"]
    obtain m where m: "m \<ge> 1"
      "chunk_loop max_size overlap words (i + ?step) (acc @ [?at i 0])
         = Some ((acc @ [?at i 0]) @ map (?at (i + ?step)) [0..<m])"
      "?L \<le> i + ?step + int (m - 1) * ?step + max_size"
      "\<forall>k. Suc k < m \<longrightarrow> i + ?step + int k * ?step + max_size < ?L"
      by blast
    have shift: "?at (i + ?step) k = ?at i (Suc k)" for k
      by (simp add: algebra_simps)
    have "map (?at i) [0..<Suc m] = ?at i 0 # map (?at (i + ?step)) [0..<m]"
      unfolding shift by (simp add: upt_conv_Cons map_Suc_upt[symmetric] del: upt_Suc)
    moreover have "chunk_loop max_size overlap words i acc
        = chunk_loop max_size overlap words (i + ?step) (acc @ [?at i 0])"
      using less.prems False by (subst chunk_loop.simps) simp
    ultimately have eq: "chunk_loop max_size overlap words i acc = Some (acc @ map (?at i) [0..<Suc m])"
      using m(2) by simp
    have b1: "?L \<le> i + int (Suc m - 1) * ?step + max_size"
      using m(1,3) by (cases m) (simp_all add: algebra_simps)
    have b2: "\<forall>k. Suc k < Suc m \<longrightarrow> i + int k * ?step + max_size < ?L"
    proof (intro allI impI)
      fix k assume "Suc k < Suc m"
      show "i + int k * ?step + max_size < ?L"
      proof (cases k)
        case 0 with False show ?thesis by simp
      next
        case (Suc j)
        with \<open>Suc k < Suc m\<close> have "Suc j < m" by simp
        with m(4) have "i + ?step + int j * ?step + max_size < ?L" by blast
        with Suc show ?thesis by (simp add: algebra_simps)
      qed
    qed
    show ?thesis using eq b1 b2 by (intro exI[of _ "Suc m"]) simp
  qed
qed

text \<open>The same for the whole chunker, in natural numbers.\<close>

lemma chunk_text_with_spec:
  assumes "0 \<le> overlap" "overlap < max_size" "py_split text \<noteq> []"
  shows "\<exists>m\<ge>1. chunk_text_with max_size overlap text
            = Some (map (\<lambda>k. py_join [32] (word_range (py_split text) (k * nat (max_size - overlap))
                                  (k * nat (max_size - overlap) + nat max_size))) [0..<m])
          \<and> length (py_split text) \<le> (m - 1) * nat (max_size - overlap) + nat max_size
          \<and> (\<forall>k. Suc k < m \<longrightarrow> k * nat (max_size - overlap) + nat max_size < length (py_split text))"
proof -
  let ?ws = "py_split text" and ?step = "nat (max_size - overlap)" and ?sz = "nat max_size"
  have st: "int ?step = max_size - overlap" and sz: "int ?sz = max_size" using assms by simp_all
  from assms(3) have "0 < int (length ?ws)" by simp
  from chunk_loop_spec[OF assms(1,2) this, of "[]"] obtain m where m: "m \<ge> 1"
    "chunk_loop max_size overlap ?ws 0 []
       = Some (map (\<lambda>k. py_join [32] (py_slice ?ws (0 + int k * (max_size - overlap))
                            (0 + int k * (max_size - overlap) + max_size))) [0..<m])"
    "int (length ?ws) \<le> 0 + int (m - 1) * (max_size - overlap) + max_size"
    "\<forall>k. Suc k < m \<longrightarrow> 0 + int k * (max_size - overlap) + max_size < int (length ?ws)"
    by auto
  have conv: "py_slice ?ws (0 + int k * (max_size - overlap)) (0 + int k * (max_size - overlap) + max_size)
      = word_range ?ws (k * ?step) (k * ?step + ?sz)" for k
  proof -
    have "0 + int k * (max_size - overlap) = int (k * ?step)"
      "0 + int k * (max_size - overlap) + max_size = int (k * ?step + ?sz)"
      using st sz by simp_all
    then show ?thesis by (simp only: py_slice_nat)
  qed
  have 1: "chunk_text_with max_size overlap text
      = Some (map (\<lambda>k. py_join [32] (word_range ?ws (k * ?step) (k * ?step + ?sz))) [0..<m])"
    unfolding chunk_text_with_def m(2) conv ..
  have "int (length ?ws) \<le> int ((m - 1) * ?step + ?sz)"
    using m(3) st sz by simp
  then have 2: "length ?ws \<le> (m - 1) * ?step + ?sz" by linarith
  have 3: "\<forall>k. Suc k < m \<longrightarrow> k * ?step + ?sz < length ?ws"
  proof (intro allI impI)
    fix k assume "Suc k < m"
    with m(4) have "int (k * ?step + ?sz) < int (length ?ws)" using st sz by simp
    then show "k * ?step + ?sz < length ?ws" by linarith
  qed
  from m(1) 1 2 3 show ?thesis by blast
qed

section \<open>Texts within one chunk\<close>

text \<open>
  C10, as stated: for every text of at most \<open>max_size\<close> words, the empty text included,
  \<open>_chunk_text\<close> returns exactly one chunk, and that chunk is the whole text. The code
  differs on two inputs: the empty text has no words, the loop body never runs and no
  chunk is returned; and a chunk is the words joined by single spaces, so the text
  \<open>a  b\<close>, with two spaces, comes back as \<open>a b\<close>.
\<close>

theorem chunk_text_whole_text_counterexample:
  "int (length (py_split [])) \<le> CHUNK_SIZE \<and> chunk_text [] = Some []
   \<and> int (length (py_split (str ''a  b''))) \<le> CHUNK_SIZE
   \<and> chunk_text (str ''a  b'') = Some [str ''a b'']
   \<and> str ''a b'' \<noteq> str ''a  b''"
proof -
  have e: "py_split [] = []" by (simp add: py_split_def)
  have s: "py_split (str ''a  b'') = [[97], [98]]" by (simp add: py_split_def is_space_def)
  have "chunk_text [] = Some []"
    by (simp add: chunk_text_def chunk_text_with_def e chunk_loop_empty)
  moreover have "chunk_text (str ''a  b'') = Some [py_join [32] [[97], [98]]]"
    unfolding chunk_text_def chunk_text_with_def s
    by (rule chunk_loop_single) (simp_all add: CHUNK_SIZE_def)
  ultimately show ?thesis by (simp add: e s[simplified] CHUNK_SIZE_def)
qed

text \<open>
  C10, amended: for every text with at least one word and at most \<open>max_size\<close> words,
  the chunker (whatever the overlap) returns exactly one chunk, which is the words of the
  text joined by single spaces and splits into the words of the text again; for a text
  without words it returns no chunk. So does \<open>_chunk_text\<close> with its 3000 words.
\<close>

theorem chunk_text_single_chunk:
  assumes "int (length (py_split text)) \<le> max_size"
  shows "chunk_text_with max_size overlap text
           = Some (if py_split text = [] then [] else [py_join (str '' '') (py_split text)])
         \<and> py_split (py_join (str '' '') (py_split text)) = py_split text
         \<and> (max_size = CHUNK_SIZE \<longrightarrow>
              chunk_text text
                = Some (if py_split text = [] then [] else [py_join (str '' '') (py_split text)]))"
proof -
  have 1: "chunk_text_with ms ov text
      = Some (if py_split text = [] then [] else [py_join (str '' '') (py_split text)])"
    if "int (length (py_split text)) \<le> ms" for ms ov
    using that by (simp add: chunk_text_with_def chunk_loop_empty chunk_loop_single)
  have 2: "py_split (py_join (str '' '') (py_split text)) = py_split text"
    using py_split_join[of "py_split text"] py_split_words[of _ "text"] by simp
  have 3: "chunk_text text
      = Some (if py_split text = [] then [] else [py_join (str '' '') (py_split text)])"
    if "max_size = CHUNK_SIZE"
    unfolding chunk_text_def using 1[of CHUNK_SIZE CHUNK_OVERLAP] assms that by simp
  from 1[OF assms] 2 3 show ?thesis by blast
qed

theorem chunk_text_single_chunk_witness:
  "int (length (py_split (str ''a  b''))) \<le> CHUNK_SIZE
   \<and> chunk_text (str ''a  b'') = Some [str ''a b'']
   \<and> py_split (str ''a b'') = py_split (str ''a  b'')"
proof -
  have s: "py_split (str ''a  b'') = [[97], [98]]" by (simp add: py_split_def is_space_def)
  then have h: "int (length (py_split (str ''a  b''))) \<le> CHUNK_SIZE"
    by (simp add: CHUNK_SIZE_def)
  from chunk_text_single_chunk[OF h, of CHUNK_OVERLAP] h show ?thesis
    by (simp add: s[simplified])
qed

section \<open>Chunk parameters that do not let the cursor advance\<close>

text \<open>
  C4, as stated: a chunker invoked with \<open>overlap \<ge> max_size\<close> is validated and rejected
  as a fatal configuration error. The code has no such check anywhere: with
  \<open>max_size = overlap = 1\<close> the one-word text \<open>a\<close> is chunked as usual, and on the
  two-word text \<open>a b\<close> the loop never returns.
\<close>

theorem chunk_text_unvalidated_counterexample:
  "\<not> (1::int) < 1
   \<and> chunk_text_with 1 1 (str ''a'') = Some [str ''a'']
   \<and> chunk_text_with 1 1 (str ''a b'') = None"
proof -
  have a: "py_split (str ''a'') = [[97]]" by (simp add: py_split_def is_space_def)
  have ab: "py_split (str ''a b'') = [[97], [98]]" by (simp add: py_split_def is_space_def)
  have "chunk_text_with 1 1 (str ''a'') = Some [py_join [32] [[97]]]"
    unfolding chunk_text_with_def a by (rule chunk_loop_single) simp_all
  moreover have "chunk_text_with 1 1 (str ''a b'') = None"
    unfolding chunk_text_with_def ab by (rule chunk_loop_diverges) simp_all
  ultimately show ?thesis by simp
qed

text \<open>
  C4, amended: the chunker does not validate its parameters. Under \<open>overlap < max_size\<close>
  the cursor advances by \<open>max_size - overlap > 0\<close> and the chunker returns on every
  text. With \<open>overlap \<ge> max_size\<close> nothing is rejected: a text of at most \<open>max_size\<close>
  words is chunked as under any other overlap, and on a text with more than \<open>max_size\<close>
  words (and at least one word) the loop never returns.
\<close>

theorem chunk_text_termination:
  "(overlap < max_size \<longrightarrow>
      0 < max_size - overlap \<and> (\<exists>chunks. chunk_text_with max_size overlap text = Some chunks))
   \<and> (max_size \<le> overlap \<and> int (length (py_split text)) \<le> max_size \<longrightarrow>
        chunk_text_with max_size overlap text
          = Some (if py_split text = [] then [] else [py_join (str '' '') (py_split text)]))
   \<and> (max_size \<le> overlap \<and> max_size < int (length (py_split text)) \<and> py_split text \<noteq> [] \<longrightarrow>
        chunk_text_with max_size overlap text = None)"
proof (intro conjI impI)
  assume "overlap < max_size"
  then show "0 < max_size - overlap" by simp
next
  assume "overlap < max_size"
  then show "\<exists>chunks. chunk_text_with max_size overlap text = Some chunks"
    unfolding chunk_text_with_def by (rule chunk_loop_terminates)
next
  assume "max_size \<le> overlap \<and> int (length (py_split text)) \<le> max_size"
  then show "chunk_text_with max_size overlap text
      = Some (if py_split text = [] then [] else [py_join (str '' '') (py_split text)])"
    by (simp add: chunk_text_with_def chunk_loop_empty chunk_loop_single)
next
  assume "max_size \<le> overlap \<and> max_size < int (length (py_split text)) \<and> py_split text \<noteq> []"
  then show "chunk_text_with max_size overlap text = None"
    unfolding chunk_text_with_def by (intro chunk_loop_diverges) simp_all
qed

theorem chunk_text_termination_witness:
  "(200::int) < 3000 \<and> (\<exists>chunks. chunk_text_with 3000 200 (str ''a b'') = Some chunks)
   \<and> (1::int) \<le> 1 \<and> int (length (py_split (str ''a''))) \<le> 1
   \<and> chunk_text_with 1 1 (str ''a'') = Some [str ''a'']
   \<and> (1::int) < int (length (py_split (str ''a b''))) \<and> py_split (str ''a b'') \<noteq> []
   \<and> chunk_text_with 1 1 (str ''a b'') = None"
proof -
  have a: "py_split (str ''a'') = [[97]]" by (simp add: py_split_def is_space_def)
  have ab: "py_split (str ''a b'') = [[97], [98]]" by (simp add: py_split_def is_space_def)
  have 1: "\<exists>chunks. chunk_text_with 3000 200 (str ''a b'') = Some chunks"
    using chunk_text_termination[of 200 3000 "str ''a b''"] by simp
  have 2: "chunk_text_with 1 1 (str ''a'') = Some [str ''a'']"
    using chunk_text_termination[of 1 1 "str ''a''"] by (simp add: a[simplified])
  have 3: "chunk_text_with 1 1 (str ''a b'') = None"
    using chunk_text_termination[of 1 1 "str ''a b''"] by (simp add: ab[simplified])
  from 1 2 3 show ?thesis by (simp add: a[simplified] ab[simplified])
qed

section \<open>Coverage of the words by the chunks\<close>

lemma chunk_text_7000:
  assumes "length (py_split text) = 7000"
  shows "chunk_text text
           = Some [py_join [32] (word_range (py_split text) 0 3000),
                   py_join [32] (word_range (py_split text) 2800 5800),
                   py_join [32] (word_range (py_split text) 5600 7000)]"
proof -
  let ?ws = "py_split text"
  let ?c = "\<lambda>k. py_join [32] (word_range ?ws (k * nat (3000 - 200)) (k * nat (3000 - 200) + nat 3000))"
  from assms have ne: "?ws \<noteq> []" by auto
  from chunk_text_with_spec[of 200 3000 "text", OF _ _ ne] obtain m where m: "m \<ge> 1"
    "chunk_text_with 3000 200 text = Some (map ?c [0..<m])"
    "length ?ws \<le> (m - 1) * nat (3000 - 200) + nat 3000"
    "\<forall>k. Suc k < m \<longrightarrow> k * nat (3000 - 200) + nat 3000 < length ?ws"
    by auto
  from m(3) assms have "3 \<le> m" by simp
  moreover have "m < 4"
  proof (rule ccontr)
    assume "\<not> m < 4"
    then have "Suc 2 < m" by simp
    with m(4) have "2 * nat (3000 - 200) + nat 3000 < length ?ws" by blast
    with assms show False by simp
  qed
  ultimately have "m = 3" by simp
  then have "[0..<m] = [0, 1, 2]" by (simp add: upt_rec)
  with m(2) have "chunk_text_with 3000 200 text = Some [?c 0, ?c 1, ?c 2]" by simp
  moreover have "word_range ?ws 5600 8600 = word_range ?ws 5600 7000"
    using assms by (simp add: word_range_def)
  ultimately show ?thesis
    by (simp add: chunk_text_def CHUNK_SIZE_def CHUNK_OVERLAP_def)
qed

text \<open>
  C3: for every text and every pair \<open>(max_size, overlap)\<close> with
  \<open>0 \<le> overlap < max_size\<close> (an overlap is a number of words), the chunker returns
  chunks \<open>0, \<dots>, m - 1\<close>, chunk \<open>k\<close> being the words with indices in
  \<open>[k * step, k * step + max_size)\<close> joined by spaces, where \<open>step = max_size - overlap\<close>,
  and splitting into exactly these words again; every word index lies in some chunk, so
  that no word is dropped, at the end or elsewhere; and a word index lies in exactly one
  chunk if and only if it is outside the overlap regions, the first \<open>overlap\<close> words of
  the chunks after the first. For 7000 words, \<open>_chunk_text\<close> with its 3000 and 200
  returns the word ranges \<open>[0, 3000)\<close>, \<open>[2800, 5800)\<close> and \<open>[5600, 7000)\<close>.
\<close>

theorem chunk_text_covers_words:
  assumes "0 \<le> overlap" "overlap < max_size"
  shows "\<exists>m.
      chunk_text_with max_size overlap text
        = Some (map (\<lambda>k. py_join (str '' '')
                           (word_range (py_split text) (k * nat (max_size - overlap))
                              (k * nat (max_size - overlap) + nat max_size))) [0..<m])
    \<and> (\<forall>k<m. py_split (py_join (str '' '')
                   (word_range (py_split text) (k * nat (max_size - overlap))
                      (k * nat (max_size - overlap) + nat max_size)))
               = word_range (py_split text) (k * nat (max_size - overlap))
                   (k * nat (max_size - overlap) + nat max_size))
    \<and> (\<forall>j<length (py_split text).
          \<exists>k<m. k * nat (max_size - overlap) \<le> j \<and> j < k * nat (max_size - overlap) + nat max_size)
    \<and> (\<forall>j<length (py_split text).
          (\<exists>!k. k < m \<and> k * nat (max_size - overlap) \<le> j
                \<and> j < k * nat (max_size - overlap) + nat max_size)
          \<longleftrightarrow> \<not> (\<exists>k. 0 < k \<and> k < m \<and> k * nat (max_size - overlap) \<le> j
                    \<and> j < k * nat (max_size - overlap) + nat overlap))
    \<and> (length (py_split text) = 7000 \<longrightarrow>
          chunk_text text
            = Some [py_join (str '' '') (word_range (py_split text) 0 3000),
                    py_join (str '' '') (word_range (py_split text) 2800 5800),
                    py_join (str '' '') (word_range (py_split text) 5600 7000)])"
proof -
  let ?ws = "py_split text" and ?step = "nat (max_size - overlap)"
  let ?sz = "nat max_size" and ?ov = "nat overlap"
  let ?c = "\<lambda>k. py_join [32] (word_range ?ws (k * ?step) (k * ?step + ?sz))"
  have step: "0 < ?step" and sz: "?sz = ?step + ?ov" using assms by simp_all
  have "\<exists>m. chunk_text_with max_size overlap text = Some (map ?c [0..<m])
      \<and> (?ws = [] \<longrightarrow> m = 0)
      \<and> (?ws \<noteq> [] \<longrightarrow> m \<ge> 1 \<and> length ?ws \<le> (m - 1) * ?step + ?sz
            \<and> (\<forall>k. Suc k < m \<longrightarrow> k * ?step + ?sz < length ?ws))"
  proof (cases "?ws = []")
    case True
    then have "chunk_text_with max_size overlap text = Some (map ?c [0..<0])"
      by (simp add: chunk_text_with_def chunk_loop_empty)
    with True show ?thesis by blast
  next
    case False
    from chunk_text_with_spec[OF assms False] False show ?thesis by blast
  qed
  then obtain m where run: "chunk_text_with max_size overlap text = Some (map ?c [0..<m])"
    and empty: "?ws = [] \<Longrightarrow> m = 0"
    and last: "?ws \<noteq> [] \<Longrightarrow> length ?ws \<le> (m - 1) * ?step + ?sz"
    and pos: "?ws \<noteq> [] \<Longrightarrow> m \<ge> 1"
    by blast
  have words: "\<forall>k<m. py_split (?c k) = word_range ?ws (k * ?step) (k * ?step + ?sz)"
    by (simp add: py_split_join_range)
  have cover: "\<exists>k<m. k * ?step \<le> j \<and> j < k * ?step + ?sz" if j: "j < length ?ws" for j
  proof -
    from j have ne: "?ws \<noteq> []" by auto
    define k where "k = min (j div ?step) (m - 1)"
    have km: "k < m" using pos[OF ne] by (simp add: k_def)
    have lo: "k * ?step \<le> j"
    proof -
      have "k * ?step \<le> (j div ?step) * ?step" by (simp add: k_def)
      also have "\<dots> \<le> j" by simp
      finally show ?thesis .
    qed
    have hi: "j < k * ?step + ?sz"
    proof (cases "j div ?step \<le> m - 1")
      case True
      then have "k = j div ?step" by (simp add: k_def)
      moreover have "j < (j div ?step) * ?step + ?step"
        using step by (metis dividend_less_div_times add.commute)
      ultimately show ?thesis using sz by simp
    next
      case False
      then have "k = m - 1" by (simp add: k_def)
      with last[OF ne] j show ?thesis by simp
    qed
    from km lo hi show ?thesis by blast
  qed
  have once: "(\<exists>!k. k < m \<and> k * ?step \<le> j \<and> j < k * ?step + ?sz)
      \<longleftrightarrow> \<not> (\<exists>k. 0 < k \<and> k < m \<and> k * ?step \<le> j \<and> j < k * ?step + ?ov)"
    if j: "j < length ?ws" for j
  proof
    assume uniq: "\<exists>!k. k < m \<and> k * ?step \<le> j \<and> j < k * ?step + ?sz"
    show "\<not> (\<exists>k. 0 < k \<and> k < m \<and> k * ?step \<le> j \<and> j < k * ?step + ?ov)"
    proof
      assume "\<exists>k. 0 < k \<and> k < m \<and> k * ?step \<le> j \<and> j < k * ?step + ?ov"
      then obtain k where k: "0 < k" "k < m" "k * ?step \<le> j" "j < k * ?step + ?ov" by blast
      from k(1) have pred: "(k - 1) * ?step + ?step = k * ?step"
        by (cases k) simp_all
      have a: "k < m \<and> k * ?step \<le> j \<and> j < k * ?step + ?sz" using k sz by simp
      have b: "k - 1 < m \<and> (k - 1) * ?step \<le> j \<and> j < (k - 1) * ?step + ?sz"
        using k sz pred by (intro conjI; linarith)
      from uniq a b have "k = k - 1" by blast
      with k(1) show False by simp
    qed
  next
    assume out: "\<not> (\<exists>k. 0 < k \<and> k < m \<and> k * ?step \<le> j \<and> j < k * ?step + ?ov)"
    from cover[OF j] obtain k where k: "k < m" "k * ?step \<le> j" "j < k * ?step + ?sz" by blast
    show "\<exists>!k. k < m \<and> k * ?step \<le> j \<and> j < k * ?step + ?sz"
    proof (rule ex1I[of _ k])
      show "k < m \<and> k * ?step \<le> j \<and> j < k * ?step + ?sz" using k by simp
    next
      fix k' assume k': "k' < m \<and> k' * ?step \<le> j \<and> j < k' * ?step + ?sz"
      have later: False
        if ab: "a < b" "b < m" "b * ?step \<le> j" "j < a * ?step + ?sz" for a b
      proof -
        from ab(1) have "Suc a \<le> b" by simp
        then have "Suc a * ?step \<le> b * ?step" by (rule mult_le_mono1)
        then have "a * ?step + ?sz \<le> b * ?step + ?ov" using sz by simp
        with ab(4) have "j < b * ?step + ?ov" by simp
        with out ab show False by auto
      qed
      show "k' = k"
      proof (rule ccontr)
        assume "k' \<noteq> k"
        then consider "k' < k" | "k < k'" by linarith
        then show False
        proof cases
          case 1 with later[of k' k] k k' show False by simp
        next
          case 2 with later[of k k'] k k' show False by simp
        qed
      qed
    qed
  qed
  from run words cover once chunk_text_7000[of "text"] show ?thesis
    by (intro exI[of _ m]) simp
qed

theorem chunk_text_covers_words_witness:
  "(0::int) \<le> 200 \<and> (200::int) < 3000
   \<and> length (py_split (concat (replicate 7000 (str ''a '')))) = 7000
   \<and> chunk_text (concat (replicate 7000 (str ''a '')))
        = Some [py_join (str '' '') (replicate 3000 (str ''a'')),
                py_join (str '' '') (replicate 3000 (str ''a'')),
                py_join (str '' '') (replicate 1400 (str ''a''))]"
proof -
  let ?text = "concat (replicate 7000 [97, 32])"
  have ws: "py_split ?text = replicate 7000 [97]" by (rule py_split_replicate)
  then have len: "length (py_split ?text) = 7000" by simp
  have h1: "(0::int) \<le> 200" and h2: "(200::int) < 3000" by simp_all
  from chunk_text_covers_words[OF h1 h2, of ?text] len
  have "chunk_text ?text
      = Some [py_join [32] (word_range (py_split ?text) 0 3000),
              py_join [32] (word_range (py_split ?text) 2800 5800),
              py_join [32] (word_range (py_split ?text) 5600 7000)]"
    by auto
  then show ?thesis
    by (simp add: ws word_range_def min_def)
qed

section \<open>The calls the orchestrator makes\<close>

text \<open>
  The call of the chunk loop for the chunk \<open>c\<close> at position \<open>i\<close>, answered by \<open>r\<close>.
\<close>

lemma recording_step:
  "recording qc prompt model (w, calls)
     = (fst (qc prompt model w), (snd (qc prompt model w), calls @ [(prompt, model, fst (qc prompt model w))]))"
  by (simp add: recording_def split: prod.splits)

lemma lift_info_step: "lift_info info msg (w, calls) = (info msg w, calls)"
  by (simp add: lift_info_def)

text \<open>
  The chunk loop over a recording client: it behaves as over the client itself, and it
  records one call per chunk, in order, up to and including the first call that raises.
\<close>

lemma summarise_chunks_recording:
  "\<exists>r w' rs.
     summarise_chunks (recording qc) (lift_info info) n (enumerate i0 chs) acc (w, calls)
       = (r, (w', calls @ map (\<lambda>((i, c), a). (build_chunk_prompt c (int i + 1) n, CHUNK_MODEL, a))
                              (zip (enumerate i0 chs) rs)))
   \<and> summarise_chunks qc info n (enumerate i0 chs) acc w = (r, w')
   \<and> ((\<exists>ss. rs = map Inr ss \<and> length ss = length chs \<and> r = Inr (acc @ ss))
      \<or> (\<exists>ss e. rs = map Inr ss @ [Inl e] \<and> length ss < length chs \<and> r = Inl e))"
proof (induction chs arbitrary: i0 acc w calls)
  case Nil
  have "((\<exists>ss. ([] :: (py_exception + pystr) list) = map Inr ss \<and> length ss = length ([] :: pystr list)
            \<and> (Inr acc :: py_exception + pystr list) = Inr (acc @ ss)))"
    by simp
  then show ?case by (intro exI[of _ "Inr acc"] exI[of _ w] exI[of _ "[]"]) simp
next
  case (Cons c chs)
  let ?w1 = "info (str ''Summarising chunk '' @ str_int (int i0 + 1) @ str ''/''
                     @ str_int n @ str ''...'') w"
  let ?p = "build_chunk_prompt c (int i0 + 1) n"
  let ?call = "\<lambda>((i, c), a). (build_chunk_prompt c (int i + 1) n, CHUNK_MODEL, a)"
  obtain a w2 where q: "qc ?p CHUNK_MODEL ?w1 = (a, w2)" by (cases "qc ?p CHUNK_MODEL ?w1")
  show ?case
  proof (cases a)
    case (Inl e)
    have 1: "summarise_chunks (recording qc) (lift_info info) n (enumerate i0 (c # chs)) acc (w, calls)
        = (Inl e, (w2, calls @ map ?call (zip (enumerate i0 (c # chs)) [Inl e])))"
      using q Inl by (simp add: recording_step lift_info_step)
    have 2: "summarise_chunks qc info n (enumerate i0 (c # chs)) acc w = (Inl e, w2)"
      using q Inl by simp
    have 3: "(\<exists>ss. [Inl e] = map Inr ss \<and> length ss = length (c # chs) \<and> Inl e = Inr (acc @ ss))
       \<or> (\<exists>ss e'. [Inl e] = map Inr ss @ [Inl e'] \<and> length ss < length (c # chs)
                \<and> (Inl e :: py_exception + pystr list) = Inl e')"
      by (intro disjI2 exI[of _ "[]"] exI[of _ e]) simp
    show ?thesis by (intro exI[of _ "Inl e"] exI[of _ w2] exI[of _ "[Inl e]"] conjI 1 2 3)
  next
    case (Inr s)
    from Cons.IH[of "Suc i0" "acc @ [s]" w2 "calls @ [(?p, CHUNK_MODEL, Inr s)]"]
    obtain r w' rs where ih:
      "summarise_chunks (recording qc) (lift_info info) n (enumerate (Suc i0) chs) (acc @ [s])
          (w2, calls @ [(?p, CHUNK_MODEL, Inr s)])
        = (r, (w', (calls @ [(?p, CHUNK_MODEL, Inr s)]) @ map ?call (zip (enumerate (Suc i0) chs) rs)))"
      "summarise_chunks qc info n (enumerate (Suc i0) chs) (acc @ [s]) w2 = (r, w')"
      "(\<exists>ss. rs = map Inr ss \<and> length ss = length chs \<and> r = Inr ((acc @ [s]) @ ss))
       \<or> (\<exists>ss e. rs = map Inr ss @ [Inl e] \<and> length ss < length chs \<and> r = Inl e)"
      by blast
    have 1: "summarise_chunks (recording qc) (lift_info info) n (enumerate i0 (c # chs)) acc (w, calls)
        = (r, (w', calls @ map ?call (zip (enumerate i0 (c # chs)) (Inr s # rs))))"
      using q Inr ih(1) by (simp add: recording_step lift_info_step)
    have 2: "summarise_chunks qc info n (enumerate i0 (c # chs)) acc w = (r, w')"
      using q Inr ih(2) by simp
    from ih(3) have 3:
      "(\<exists>ss. Inr s # rs = map Inr ss \<and> length ss = length (c # chs) \<and> r = Inr (acc @ ss))
       \<or> (\<exists>ss e. Inr s # rs = map Inr ss @ [Inl e] \<and> length ss < length (c # chs) \<and> r = Inl e)"
    proof
      assume "\<exists>ss. rs = map Inr ss \<and> length ss = length chs \<and> r = Inr ((acc @ [s]) @ ss)"
      then obtain ss where "rs = map Inr ss" "length ss = length chs" "r = Inr ((acc @ [s]) @ ss)"
        by blast
      then have "Inr s # rs = map Inr (s # ss) \<and> length (s # ss) = length (c # chs)
          \<and> r = Inr (acc @ (s # ss))" by simp
      then show ?thesis by (intro disjI1 exI[of _ "s # ss"])
    next
      assume "\<exists>ss e. rs = map Inr ss @ [Inl e] \<and> length ss < length chs \<and> r = Inl e"
      then obtain ss e where "rs = map Inr ss @ [Inl e]" "length ss < length chs" "r = Inl e"
        by blast
      then have "Inr s # rs = map Inr (s # ss) @ [Inl e] \<and> length (s # ss) < length (c # chs)
          \<and> r = Inl e" by simp
      then show ?thesis by (intro disjI2 exI[of _ "s # ss"] exI[of _ e])
    qed
    show ?thesis by (intro exI[of _ r] exI[of _ w'] exI[of _ "Inr s # rs"] conjI 1 2 3)
  qed
qed

lemma chunk_text_returns: "\<exists>chunks. chunk_text text = Some chunks"
  unfolding chunk_text_def chunk_text_with_def
  by (rule chunk_loop_terminates) (simp add: CHUNK_SIZE_def CHUNK_OVERLAP_def)

text \<open>Within the budget: one call, with the single-pass prompt and the main model.\<close>

lemma run_pipeline_with_single:
  assumes "int (length (py_split text)) \<le> CHUNK_SIZE"
  shows "\<exists>res w' r.
      run_pipeline_with qc info text filename w = Some (res, w')
    \<and> run_pipeline_with (recording qc) (lift_info info) text filename (w, calls)
        = Some (res, (w', calls @ [(build_summary_prompt text filename, MAIN_MODEL, r)]))
    \<and> res = (case r of Inl e \<Rightarrow> Inl e | Inr response \<Rightarrow> extract_json response)"
proof -
  let ?p = "build_summary_prompt text filename"
  obtain r w1 where q: "qc ?p MAIN_MODEL w = (r, w1)" by (cases "qc ?p MAIN_MODEL w")
  show ?thesis
  proof (cases r)
    case (Inl e)
    have "run_pipeline_with qc info text filename w = Some (Inl e, w1)"
      "run_pipeline_with (recording qc) (lift_info info) text filename (w, calls)
        = Some (Inl e, (w1, calls @ [(?p, MAIN_MODEL, r)]))"
      using assms q Inl by (simp_all add: run_pipeline_with_def recording_step)
    with Inl show ?thesis by simp
  next
    case (Inr response)
    have "run_pipeline_with qc info text filename w
        = Some (extract_json response, info (str ''Summary generated'') w1)"
      "run_pipeline_with (recording qc) (lift_info info) text filename (w, calls)
        = Some (extract_json response,
                (info (str ''Summary generated'') w1, calls @ [(?p, MAIN_MODEL, r)]))"
      using assms q Inr by (simp_all add: run_pipeline_with_def recording_step lift_info_step)
    with Inr show ?thesis by simp
  qed
qed

text \<open>
  Over the budget: one call per chunk with the chunk model, in order, and then, if none
  of them raised, one call with the main model and the consolidation prompt.
\<close>

lemma run_pipeline_with_chunked:
  assumes "int (length (py_split text)) > CHUNK_SIZE"
  shows "\<exists>res w' chunks rs.
      chunk_text text = Some chunks
    \<and> ((\<exists>summaries r.
           rs = map Inr summaries \<and> length summaries = length chunks
         \<and> run_pipeline_with qc info text filename w = Some (res, w')
         \<and> run_pipeline_with (recording qc) (lift_info info) text filename (w, [])
             = Some (res, (w',
                 map (\<lambda>((i, c), a). (build_chunk_prompt c (int i + 1) (int (length chunks)), CHUNK_MODEL, a))
                     (zip (enumerate 0 chunks) rs)
                 @ [(build_consolidation_prompt (py_join (str ''\<newline>\<newline>'') summaries) filename,
                     MAIN_MODEL, r)]))
         \<and> res = (case r of Inl e \<Rightarrow> Inl e | Inr response \<Rightarrow> extract_json response))
      \<or> (\<exists>summaries e.
           rs = map Inr summaries @ [Inl e] \<and> length summaries < length chunks
         \<and> run_pipeline_with qc info text filename w = Some (res, w')
         \<and> run_pipeline_with (recording qc) (lift_info info) text filename (w, [])
             = Some (res, (w',
                 map (\<lambda>((i, c), a). (build_chunk_prompt c (int i + 1) (int (length chunks)), CHUNK_MODEL, a))
                     (zip (enumerate 0 chunks) rs)))
         \<and> res = Inl e))"
proof -
  obtain chunks where ch: "chunk_text text = Some chunks" using chunk_text_returns by blast
  let ?n = "int (length chunks)"
  let ?w1 = "info (str ''Text exceeds '' @ str_int CHUNK_SIZE @ str '' words (''
                   @ str_int (int (length (py_split text))) @ str ''), chunking...'') w"
  let ?w2 = "info (str ''Split into '' @ str_int ?n @ str '' chunks'') ?w1"
  let ?call = "\<lambda>((i, c), a). (build_chunk_prompt c (int i + 1) ?n, CHUNK_MODEL, a)"
  from summarise_chunks_recording[of qc info ?n 0 chunks "[]" ?w2 "[]"]
  obtain sr w3 rs where loop:
    "summarise_chunks (recording qc) (lift_info info) ?n (enumerate 0 chunks) [] (?w2, [])
       = (sr, (w3, map ?call (zip (enumerate 0 chunks) rs)))"
    "summarise_chunks qc info ?n (enumerate 0 chunks) [] ?w2 = (sr, w3)"
    "(\<exists>ss. rs = map Inr ss \<and> length ss = length chunks \<and> sr = Inr ([] @ ss))
     \<or> (\<exists>ss e. rs = map Inr ss @ [Inl e] \<and> length ss < length chunks \<and> sr = Inl e)"
    by auto
  from loop(3) show ?thesis
  proof
    assume "\<exists>ss. rs = map Inr ss \<and> length ss = length chunks \<and> sr = Inr ([] @ ss)"
    then obtain ss where ss: "rs = map Inr ss" "length ss = length chunks" "sr = Inr ss" by auto
    let ?w4 = "info (str ''Consolidating chunk summaries with main model...'') w3"
    let ?p = "build_consolidation_prompt (py_join (str ''\<newline>\<newline>'') ss) filename"
    obtain r w5 where q: "qc ?p MAIN_MODEL ?w4 = (r, w5)" by (cases "qc ?p MAIN_MODEL ?w4")
    define res where "res = (case r of Inl e \<Rightarrow> Inl e | Inr response \<Rightarrow> extract_json response)"
    define w' where "w' = (case r of Inl e \<Rightarrow> w5 | Inr response \<Rightarrow> info (str ''Summary generated'') w5)"
    have 1: "run_pipeline_with qc info text filename w = Some (res, w')"
      using assms ch loop(2) ss(3) q
      by (cases r) (simp_all add: run_pipeline_with_def res_def w'_def)
    have 2: "run_pipeline_with (recording qc) (lift_info info) text filename (w, [])
        = Some (res, (w', map ?call (zip (enumerate 0 chunks) rs) @ [(?p, MAIN_MODEL, r)]))"
      using assms ch loop(1) ss(3) q
      by (cases r) (simp_all add: run_pipeline_with_def res_def w'_def recording_step lift_info_step)
    have ok: "\<exists>summaries r.
           rs = map Inr summaries \<and> length summaries = length chunks
         \<and> run_pipeline_with qc info text filename w = Some (res, w')
         \<and> run_pipeline_with (recording qc) (lift_info info) text filename (w, [])
             = Some (res, (w', map ?call (zip (enumerate 0 chunks) rs)
                 @ [(build_consolidation_prompt (py_join (str ''\<newline>\<newline>'') summaries) filename,
                     MAIN_MODEL, r)]))
         \<and> res = (case r of Inl e \<Rightarrow> Inl e | Inr response \<Rightarrow> extract_json response)"
      by (rule exI[of _ ss], rule exI[of _ r]) (intro conjI ss(1) ss(2) 1 2 res_def)
    show ?thesis
      by (rule exI[of _ res], rule exI[of _ w'], rule exI[of _ chunks], rule exI[of _ rs],
          rule conjI[OF ch], rule disjI1) (fact ok)
  next
    assume "\<exists>ss e. rs = map Inr ss @ [Inl e] \<and> length ss < length chunks \<and> sr = Inl e"
    then obtain ss e where ss: "rs = map Inr ss @ [Inl e]" "length ss < length chunks" "sr = Inl e"
      by auto
    have 1: "run_pipeline_with qc info text filename w = Some (Inl e, w3)"
      using assms ch loop(2) ss(3) by (simp add: run_pipeline_with_def)
    have 2: "run_pipeline_with (recording qc) (lift_info info) text filename (w, [])
        = Some (Inl e, (w3, map ?call (zip (enumerate 0 chunks) rs)))"
      using assms ch loop(1) ss(3) by (simp add: run_pipeline_with_def lift_info_step)
    have bad: "\<exists>summaries e'.
           rs = map Inr summaries @ [Inl e'] \<and> length summaries < length chunks
         \<and> run_pipeline_with qc info text filename w = Some (Inl e, w3)
         \<and> run_pipeline_with (recording qc) (lift_info info) text filename (w, [])
             = Some (Inl e, (w3, map ?call (zip (enumerate 0 chunks) rs)))
         \<and> (Inl e :: py_exception + json) = Inl e'"
      by (rule exI[of _ ss], rule exI[of _ e]) (intro conjI ss(1) ss(2) 1 2 refl)
    show ?thesis
      by (rule exI[of _ "Inl e"], rule exI[of _ w3], rule exI[of _ chunks], rule exI[of _ rs],
          rule conjI[OF ch], rule disjI2) (fact bad)
  qed
qed

section \<open>The number of chunks\<close>

lemma chunk_count_general:
  assumes "0 \<le> overlap" "overlap < max_size" "max_size < int (length (py_split text))"
  shows "\<exists>chunks. chunk_text_with max_size overlap text = Some chunks
           \<and> int (length chunks)
               = \<lceil>(real (length (py_split text)) - real_of_int overlap)
                    / (real_of_int max_size - real_of_int overlap)\<rceil>"
proof -
  let ?ws = "py_split text" and ?step = "nat (max_size - overlap)" and ?sz = "nat max_size"
  let ?L = "length ?ws"
  from assms have ne: "?ws \<noteq> []" by auto
  from chunk_text_with_spec[OF assms(1,2) ne] obtain m where m: "m \<ge> 1"
    "chunk_text_with max_size overlap text
       = Some (map (\<lambda>k. py_join [32] (word_range ?ws (k * ?step) (k * ?step + ?sz))) [0..<m])"
    "?L \<le> (m - 1) * ?step + ?sz"
    "\<forall>k. Suc k < m \<longrightarrow> k * ?step + ?sz < ?L"
    by blast
  have sz: "int ?sz = max_size" and st: "int ?step = max_size - overlap" using assms by simp_all
  have "m \<noteq> 1"
  proof
    assume "m = 1"
    with m(3) have "?L \<le> ?sz" by simp
    then have "int ?L \<le> int ?sz" by (simp only: of_nat_le_iff)
    with assms(3) sz show False by linarith
  qed
  with m(1) obtain j where j: "m = Suc (Suc j)" by (cases m; cases "m - 1") auto
  from m(4) j have "j * ?step + ?sz < ?L" by simp
  then have "int j * int ?step + int ?sz < int ?L" by (metis of_nat_add of_nat_mult of_nat_less_iff)
  then have lo: "int j * (max_size - overlap) + max_size < int ?L" by (simp only: sz st)
  from m(3) j have "?L \<le> Suc j * ?step + ?sz" by simp
  then have "int ?L \<le> int (Suc j) * int ?step + int ?sz"
    by (metis of_nat_add of_nat_mult of_nat_le_iff)
  then have hi: "int ?L \<le> (int j + 1) * (max_size - overlap) + max_size" by (simp only: sz st) (simp add: add.commute)
  define d where "d = real_of_int max_size - real_of_int overlap"
  have d: "0 < d" using assms(2) by (simp add: d_def)
  have lo': "real j * d + real_of_int max_size < real ?L"
  proof -
    from lo have "real_of_int (int j * (max_size - overlap) + max_size) < real_of_int (int ?L)"
      by (simp only: of_int_less_iff)
    then show ?thesis by (simp add: d_def)
  qed
  have hi': "real ?L \<le> (real j + 1) * d + real_of_int max_size"
  proof -
    from hi have "real_of_int (int ?L) \<le> real_of_int ((int j + 1) * (max_size - overlap) + max_size)"
      by (simp only: of_int_le_iff)
    then show ?thesis by (simp add: d_def)
  qed
  have ov: "real_of_int max_size = d + real_of_int overlap" by (simp add: d_def)
  have "\<lceil>(real ?L - real_of_int overlap) / d\<rceil> = int m"
  proof (rule ceiling_unique)
    have "(real j + 1) * d < real ?L - real_of_int overlap"
      using lo' ov by (simp add: algebra_simps)
    then have "real j + 1 < (real ?L - real_of_int overlap) / d"
      using d by (simp add: pos_less_divide_eq)
    then show "real_of_int (int m) - 1 < (real ?L - real_of_int overlap) / d"
      using j by simp
  next
    have "real ?L - real_of_int overlap \<le> (real j + 2) * d"
      using hi' ov by (simp add: algebra_simps)
    then have "(real ?L - real_of_int overlap) / d \<le> real j + 2"
      using d by (simp add: pos_divide_le_eq)
    then show "(real ?L - real_of_int overlap) / d \<le> real_of_int (int m)"
      using j by simp
  qed
  with m(2) show ?thesis by (simp add: d_def)
qed

text \<open>
  C2: for every text of \<open>L\<close> words with \<open>L > 3000\<close>, \<open>_chunk_text\<close> returns exactly
  \<open>ceil((L - 200) / (3000 - 200))\<close> chunks; when \<open>L \<le> 3000\<close>, \<open>run_pipeline\<close> makes
  exactly one call of the model client, with the single-pass prompt of the text as it
  is, unchunked.
\<close>

theorem chunk_count:
  "(CHUNK_SIZE < int (length (py_split text)) \<longrightarrow>
      (\<exists>chunks. chunk_text text = Some chunks
         \<and> int (length chunks)
             = \<lceil>(real (length (py_split text)) - real_of_int CHUNK_OVERLAP)
                  / (real_of_int CHUNK_SIZE - real_of_int CHUNK_OVERLAP)\<rceil>))
   \<and> (int (length (py_split text)) \<le> CHUNK_SIZE \<longrightarrow>
      (\<exists>res w' r.
          run_pipeline b text filename w = Some (res, w')
        \<and> run_pipeline_with (recording (\<lambda>prompt model. query_claude b prompt model 3))
             (lift_info log_info) text filename (w, [])
            = Some (res, (w', [(build_summary_prompt text filename, MAIN_MODEL, r)]))))"
proof (intro conjI impI)
  assume "CHUNK_SIZE < int (length (py_split text))"
  then show "\<exists>chunks. chunk_text text = Some chunks
         \<and> int (length chunks)
             = \<lceil>(real (length (py_split text)) - real_of_int CHUNK_OVERLAP)
                  / (real_of_int CHUNK_SIZE - real_of_int CHUNK_OVERLAP)\<rceil>"
    unfolding chunk_text_def
    by (intro chunk_count_general) (simp_all add: CHUNK_SIZE_def CHUNK_OVERLAP_def)
next
  assume short: "int (length (py_split text)) \<le> CHUNK_SIZE"
  from run_pipeline_with_single[OF short, of "\<lambda>prompt model. query_claude b prompt model 3"
      log_info filename w "[]"]
  show "\<exists>res w' r.
          run_pipeline b text filename w = Some (res, w')
        \<and> run_pipeline_with (recording (\<lambda>prompt model. query_claude b prompt model 3))
             (lift_info log_info) text filename (w, [])
            = Some (res, (w', [(build_summary_prompt text filename, MAIN_MODEL, r)]))"
    unfolding run_pipeline_def by auto
qed

theorem chunk_count_witness:
  "CHUNK_SIZE < int (length (py_split (concat (replicate 7000 (str ''a '')))))
   \<and> (\<exists>chunks. chunk_text (concat (replicate 7000 (str ''a ''))) = Some chunks \<and> length chunks = 3)
   \<and> int (length (py_split (str ''a b c''))) \<le> CHUNK_SIZE
   \<and> (\<exists>res w' r.
          run_pipeline (\<lambda>w prompt model. Inr []) (str ''a b c'') (str ''paper1'') [] = Some (res, w')
        \<and> run_pipeline_with (recording (\<lambda>prompt model. query_claude (\<lambda>w prompt model. Inr []) prompt model 3))
             (lift_info log_info) (str ''a b c'') (str ''paper1'') ([], [])
            = Some (res, (w', [(build_summary_prompt (str ''a b c'') (str ''paper1''), MAIN_MODEL, r)])))"
proof -
  let ?big = "concat (replicate 7000 [97, 32])"
  have ws: "py_split ?big = replicate 7000 [97]" by (rule py_split_replicate)
  have h1: "CHUNK_SIZE < int (length (py_split ?big))" by (simp add: ws CHUNK_SIZE_def)
  have c: "\<lceil>(real (length (py_split ?big)) - real_of_int CHUNK_OVERLAP)
             / (real_of_int CHUNK_SIZE - real_of_int CHUNK_OVERLAP)\<rceil> = 3"
    by (simp add: ws CHUNK_SIZE_def CHUNK_OVERLAP_def ceiling_eq_iff)
  from chunk_count[of ?big] h1 c
  have 1: "\<exists>chunks. chunk_text ?big = Some chunks \<and> length chunks = 3" by auto
  have h2: "int (length (py_split [97, 32, 98, 32, 99])) \<le> CHUNK_SIZE"
    by (simp add: py_split_def is_space_def CHUNK_SIZE_def)
  from chunk_count[of "[97, 32, 98, 32, 99]" "\<lambda>w prompt model. Inr []" "str ''paper1''" "[]"] h2
  have 2: "\<exists>res w' r.
          run_pipeline (\<lambda>w prompt model. Inr []) [97, 32, 98, 32, 99] (str ''paper1'') [] = Some (res, w')
        \<and> run_pipeline_with (recording (\<lambda>prompt model. query_claude (\<lambda>w prompt model. Inr []) prompt model 3))
             (lift_info log_info) [97, 32, 98, 32, 99] (str ''paper1'') ([], [])
            = Some (res, (w', [(build_summary_prompt [97, 32, 98, 32, 99] (str ''paper1''), MAIN_MODEL, r)]))"
    by blast
  from h1 1 h2 2 show ?thesis by simp
qed

section \<open>Single pass and chunked pass\<close>

lemma build_summary_prompt_contains:
  "\<exists>a b. build_summary_prompt text filename = a @ filename @ b @ text"
proof -
  have "\<exists>a b. x @ y @ z @ f @ u @ v @ w @ t = a @ f @ b @ t" for x y z f u v w t :: pystr
    by (intro exI[of _ "x @ y @ z"] exI[of _ "u @ v @ w"]) simp
  then show ?thesis unfolding build_summary_prompt_def by blast
qed

lemma build_consolidation_prompt_contains:
  "\<exists>a b. build_consolidation_prompt summaries filename = a @ filename @ b @ summaries"
proof -
  have "\<exists>a b. x @ y @ z @ f @ u @ v @ w @ t = a @ f @ b @ t" for x y z f u v w t :: pystr
    by (intro exI[of _ "x @ y @ z"] exI[of _ "u @ v @ w"]) simp
  then show ?thesis unfolding build_consolidation_prompt_def by blast
qed

text \<open>
  C1: for every backend, text and file name, \<open>run_pipeline\<close> returns, and the calls it
  makes to the model client are these. With at most 3000 words: exactly one call, to the
  main model, with the single-pass prompt, which contains the file name and ends with
  the text; the result is the parsed answer, or the exception of the call. With more
  than 3000 words: one call to the chunk model per chunk, in the order of the chunks,
  and then one call to the main model with the consolidation prompt, which ends with the
  partial summaries joined by double newlines in the order of the chunks; the result is
  the parsed answer of that last call, or its exception. A call for a chunk that raises
  is the last call, and its exception is the result.
\<close>

theorem run_pipeline_calls:
  "\<exists>res w' calls.
      run_pipeline b text filename w = Some (res, w')
    \<and> run_pipeline_with (recording (\<lambda>prompt model. query_claude b prompt model 3))
         (lift_info log_info) text filename (w, []) = Some (res, (w', calls))
    \<and> (int (length (py_split text)) \<le> CHUNK_SIZE \<longrightarrow>
         (\<exists>r. calls = [(build_summary_prompt text filename, MAIN_MODEL, r)] \<and> res = parsed r))
    \<and> (CHUNK_SIZE < int (length (py_split text)) \<longrightarrow>
         (\<exists>chunks. chunk_text text = Some chunks
            \<and> ((\<exists>summaries r.
                   length summaries = length chunks
                 \<and> calls = chunk_calls chunks (map Inr summaries)
                     @ [(build_consolidation_prompt (py_join (str ''\<newline>\<newline>'') summaries) filename,
                         MAIN_MODEL, r)]
                 \<and> res = parsed r)
              \<or> (\<exists>summaries e.
                   length summaries < length chunks
                 \<and> calls = chunk_calls chunks (map Inr summaries @ [Inl e])
                 \<and> res = Inl e))))
    \<and> (\<exists>a b. build_summary_prompt text filename = a @ filename @ b @ text)
    \<and> (\<forall>summaries. \<exists>a b. build_consolidation_prompt summaries filename = a @ filename @ b @ summaries)"
proof (cases "int (length (py_split text)) \<le> CHUNK_SIZE")
  case True
  from run_pipeline_with_single[OF True, of "\<lambda>prompt model. query_claude b prompt model 3"
      log_info filename w "[]"]
  obtain res w' r where
    "run_pipeline b text filename w = Some (res, w')"
    "run_pipeline_with (recording (\<lambda>prompt model. query_claude b prompt model 3))
         (lift_info log_info) text filename (w, [])
       = Some (res, (w', [(build_summary_prompt text filename, MAIN_MODEL, r)]))"
    "res = parsed r"
    unfolding run_pipeline_def parsed_def by auto
  with True build_summary_prompt_contains[of "text" filename]
    build_consolidation_prompt_contains[of _ filename]
  show ?thesis
    by (intro exI[of _ res] exI[of _ w']
        exI[of _ "[(build_summary_prompt text filename, MAIN_MODEL, r)]"]) auto
next
  case False
  then have long: "CHUNK_SIZE < int (length (py_split text))" by simp
  from run_pipeline_with_chunked[OF long, of "\<lambda>prompt model. query_claude b prompt model 3"
      log_info filename w]
  obtain res w' chunks rs where ch: "chunk_text text = Some chunks" and
    alt: "(\<exists>summaries r.
           rs = map Inr summaries \<and> length summaries = length chunks
         \<and> run_pipeline b text filename w = Some (res, w')
         \<and> run_pipeline_with (recording (\<lambda>prompt model. query_claude b prompt model 3))
              (lift_info log_info) text filename (w, [])
             = Some (res, (w', chunk_calls chunks rs
                 @ [(build_consolidation_prompt (py_join (str ''\<newline>\<newline>'') summaries) filename,
                     MAIN_MODEL, r)]))
         \<and> res = parsed r)
      \<or> (\<exists>summaries e.
           rs = map Inr summaries @ [Inl e] \<and> length summaries < length chunks
         \<and> run_pipeline b text filename w = Some (res, w')
         \<and> run_pipeline_with (recording (\<lambda>prompt model. query_claude b prompt model 3))
              (lift_info log_info) text filename (w, [])
             = Some (res, (w', chunk_calls chunks rs))
         \<and> res = Inl e)"
    unfolding run_pipeline_def parsed_def chunk_calls_def by blast
  from alt obtain calls where calls:
    "run_pipeline b text filename w = Some (res, w')"
    "run_pipeline_with (recording (\<lambda>prompt model. query_claude b prompt model 3))
         (lift_info log_info) text filename (w, []) = Some (res, (w', calls))"
    "(\<exists>summaries r.
         length summaries = length chunks
       \<and> calls = chunk_calls chunks (map Inr summaries)
           @ [(build_consolidation_prompt (py_join (str ''\<newline>\<newline>'') summaries) filename,
               MAIN_MODEL, r)]
       \<and> res = parsed r)
     \<or> (\<exists>summaries e.
         length summaries < length chunks
       \<and> calls = chunk_calls chunks (map Inr summaries @ [Inl e])
       \<and> res = Inl e)"
    by blast
  from calls(3) ch have "\<exists>chunks. chunk_text text = Some chunks
            \<and> ((\<exists>summaries r.
                   length summaries = length chunks
                 \<and> calls = chunk_calls chunks (map Inr summaries)
                     @ [(build_consolidation_prompt (py_join (str ''\<newline>\<newline>'') summaries) filename,
                         MAIN_MODEL, r)]
                 \<and> res = parsed r)
              \<or> (\<exists>summaries e.
                   length summaries < length chunks
                 \<and> calls = chunk_calls chunks (map Inr summaries @ [Inl e])
                 \<and> res = Inl e))"
    by blast
  with False calls(1,2) build_summary_prompt_contains[of "text" filename]
    build_consolidation_prompt_contains[of _ filename]
  show ?thesis
    by (intro exI[of _ res] exI[of _ w'] exI[of _ calls]) simp
qed

theorem run_pipeline_calls_witness:
  "int (length (py_split (str ''a b c''))) \<le> CHUNK_SIZE
   \<and> (\<exists>res w' r.
         run_pipeline (\<lambda>w prompt model. Inr []) (str ''a b c'') (str ''paper1'') [] = Some (res, w')
       \<and> run_pipeline_with (recording (\<lambda>prompt model. query_claude (\<lambda>w prompt model. Inr []) prompt model 3))
            (lift_info log_info) (str ''a b c'') (str ''paper1'') ([], [])
           = Some (res, (w', [(build_summary_prompt (str ''a b c'') (str ''paper1''), MAIN_MODEL, r)]))
       \<and> res = parsed r)
   \<and> CHUNK_SIZE < int (length (py_split (concat (replicate 7000 (str ''a '')))))
   \<and> (\<exists>res w' calls chunks.
         run_pipeline (\<lambda>w prompt model. Inr []) (concat (replicate 7000 (str ''a ''))) (str ''paper2'') []
           = Some (res, w')
       \<and> run_pipeline_with (recording (\<lambda>prompt model. query_claude (\<lambda>w prompt model. Inr []) prompt model 3))
            (lift_info log_info) (concat (replicate 7000 (str ''a ''))) (str ''paper2'') ([], [])
           = Some (res, (w', calls))
       \<and> chunk_text (concat (replicate 7000 (str ''a ''))) = Some chunks
       \<and> ((\<exists>summaries r.
              length summaries = length chunks
            \<and> calls = chunk_calls chunks (map Inr summaries)
                @ [(build_consolidation_prompt (py_join (str ''\<newline>\<newline>'') summaries) (str ''paper2''),
                    MAIN_MODEL, r)]
            \<and> res = parsed r)
         \<or> (\<exists>summaries e.
              length summaries < length chunks
            \<and> calls = chunk_calls chunks (map Inr summaries @ [Inl e])
            \<and> res = Inl e)))"
proof -
  let ?b = "\<lambda>(w :: event list) (prompt :: pystr) (model :: pystr). Inr [] :: py_exception + message list"
  let ?small = "[97, 32, 98, 32, 99] :: pystr"
  let ?big = "concat (replicate 7000 [97, 32]) :: pystr"
  have h1: "int (length (py_split ?small)) \<le> CHUNK_SIZE"
    by (simp add: py_split_def is_space_def CHUNK_SIZE_def)
  have ws: "py_split ?big = replicate 7000 [97]" by (rule py_split_replicate)
  have h2: "CHUNK_SIZE < int (length (py_split ?big))" by (simp add: ws CHUNK_SIZE_def)
  from run_pipeline_calls[of ?b ?small "str ''paper1''" "[]"] h1
  have 1: "\<exists>res w' r.
         run_pipeline ?b ?small (str ''paper1'') [] = Some (res, w')
       \<and> run_pipeline_with (recording (\<lambda>prompt model. query_claude ?b prompt model 3))
            (lift_info log_info) ?small (str ''paper1'') ([], [])
           = Some (res, (w', [(build_summary_prompt ?small (str ''paper1''), MAIN_MODEL, r)]))
       \<and> res = parsed r"
    by blast
  from run_pipeline_calls[of ?b ?big "str ''paper2''" "[]"] h2
  have 2: "\<exists>res w' calls chunks.
         run_pipeline ?b ?big (str ''paper2'') [] = Some (res, w')
       \<and> run_pipeline_with (recording (\<lambda>prompt model. query_claude ?b prompt model 3))
            (lift_info log_info) ?big (str ''paper2'') ([], [])
           = Some (res, (w', calls))
       \<and> chunk_text ?big = Some chunks
       \<and> ((\<exists>summaries r.
              length summaries = length chunks
            \<and> calls = chunk_calls chunks (map Inr summaries)
                @ [(build_consolidation_prompt (py_join (str ''\<newline>\<newline>'') summaries) (str ''paper2''),
                    MAIN_MODEL, r)]
            \<and> res = parsed r)
         \<or> (\<exists>summaries e.
              length summaries < length chunks
            \<and> calls = chunk_calls chunks (map Inr summaries @ [Inl e])
            \<and> res = Inl e))"
    by blast
  from h1 1 h2 2 show ?thesis by simp
qed

section \<open>The model client: retries, sleeps and propagation\<close>

text \<open>
  As long as the attempts raise rate-limit exceptions and are not the last one, the loop
  goes on with the next attempt, having slept.
\<close>

lemma query_attempts_rate_limited:
  assumes "\<forall>j<k. \<exists>e. b (w @ retry_events prompt model retries i j) prompt model = Inl e
                     \<and> is_Exception e \<and> is_rate_limit e"
    and "int (i + k) < retries"
  shows "query_attempts b prompt model retries (map int [i..<i + k] @ rest) w
           = query_attempts b prompt model retries rest (w @ retry_events prompt model retries i k)"
  using assms
proof (induction k arbitrary: i w)
  case 0
  show ?case by simp
next
  case (Suc k)
  from Suc.prems(1) obtain e where e: "b w prompt model = Inl e" "is_Exception e" "is_rate_limit e"
    by fastforce
  let ?w2 = "w @ [BackendCall prompt model,
                   LogWarning (rate_limit_warning (60 * (int i + 1)) (int i) retries),
                   Sleep (60 * (int i + 1))]"
  have upt: "[i..<i + Suc k] = i # [Suc i..<Suc i + k]" by (simp add: upt_rec)
  have step: "query_attempts b prompt model retries (int i # map int [Suc i..<Suc i + k] @ rest) w
      = query_attempts b prompt model retries (map int [Suc i..<Suc i + k] @ rest) ?w2"
    using e Suc.prems(2) by (simp add: Let_def)
  have hyp: "\<forall>j<k. \<exists>e. b (?w2 @ retry_events prompt model retries (Suc i) j) prompt model = Inl e
                     \<and> is_Exception e \<and> is_rate_limit e"
  proof (intro allI impI)
    fix j assume "j < k"
    then have "Suc j < Suc k" by simp
    with Suc.prems(1) show "\<exists>e. b (?w2 @ retry_events prompt model retries (Suc i) j) prompt model = Inl e
                     \<and> is_Exception e \<and> is_rate_limit e"
      by fastforce
  qed
  have "int (Suc i + k) < retries" using Suc.prems(2) by simp
  from Suc.IH[OF hyp this] step show ?case
    unfolding upt by simp
qed

lemma py_range_split:
  assumes "int k < retries"
  shows "py_range retries = map int [0..<0 + k] @ int k # map int [Suc k..<nat retries]"
proof -
  from assms have "k < nat retries" by simp
  then have "[0..<nat retries] = [0..<k] @ k # [Suc k..<nat retries]"
    by (metis le0 upt_add_eq_append upt_conv_Cons le_add_diff_inverse less_imp_le_nat)
  then show ?thesis by (simp add: py_range_def)
qed

text \<open>
  C5: for every prompt and model, when an attempt raises an exception that does not
  indicate a rate limit, \<open>_query_claude\<close> raises that same exception, with no further
  call, no warning and no sleep after the failing call; on the first attempt the failing
  call is then the only event. An exception of the last attempt is raised in the same
  way when it does indicate a rate limit. (The attempts before attempt \<open>k\<close> are those
  that were retried: each raised a rate-limit exception.)
\<close>

theorem query_claude_propagates:
  assumes "int k < retries"
    and "\<forall>j<k. \<exists>e'. b (w @ retry_events prompt model retries 0 j) prompt model = Inl e'
                     \<and> is_Exception e' \<and> is_rate_limit e'"
    and "b (w @ retry_events prompt model retries 0 k) prompt model = Inl e"
    and "\<not> is_rate_limit e \<or> int k = retries - 1"
  shows "query_claude b prompt model retries w
           = (Inl e, w @ retry_events prompt model retries 0 k @ [BackendCall prompt model])"
proof -
  let ?wk = "w @ retry_events prompt model retries 0 k"
  let ?rest = "map int [Suc k..<nat retries]"
  have "query_claude b prompt model retries w
      = query_attempts b prompt model retries (map int [0..<0 + k] @ int k # ?rest) w"
    unfolding query_claude_def py_range_split[OF assms(1)] ..
  also have "\<dots> = query_attempts b prompt model retries (int k # ?rest) ?wk"
    using assms(1,2) by (intro query_attempts_rate_limited) simp_all
  also have "\<dots> = (Inl e, ?wk @ [BackendCall prompt model])"
    using assms(3,4) by (auto simp: Let_def)
  finally show ?thesis by simp
qed

theorem query_claude_propagates_witness:
  "int 0 < 3
   \<and> (\<lambda>w prompt model. Inl (Raised True (str ''connection reset''))) ([] @ retry_events [] [] 3 0 0) [] []
       = (Inl (Raised True (str ''connection reset'')) :: py_exception + message list)
   \<and> \<not> is_rate_limit (Raised True (str ''connection reset''))
   \<and> query_claude (\<lambda>w prompt model. Inl (Raised True (str ''connection reset''))) [] [] 3 []
       = (Inl (Raised True (str ''connection reset'')), [BackendCall [] []])
   \<and> int 1 < 2 \<and> int 1 = 2 - 1
   \<and> is_rate_limit (Raised True (str ''Rate_Limit_Error''))
   \<and> query_claude (\<lambda>w prompt model. Inl (Raised True (str ''Rate_Limit_Error''))) [] [] 2 []
       = (Inl (Raised True (str ''Rate_Limit_Error'')),
          [BackendCall [] [], LogWarning (rate_limit_warning 60 0 2), Sleep 60, BackendCall [] []])"
proof -
  let ?b1 = "\<lambda>(w :: event list) (prompt :: pystr) (model :: pystr).
               Inl (Raised True (str ''connection reset'')) :: py_exception + message list"
  let ?b2 = "\<lambda>(w :: event list) (prompt :: pystr) (model :: pystr).
               Inl (Raised True (str ''Rate_Limit_Error'')) :: py_exception + message list"
  have n: "\<not> is_rate_limit (Raised True (str ''connection reset''))"
    by (simp add: is_rate_limit_def py_lower_def)
  have y: "is_rate_limit (Raised True (str ''Rate_Limit_Error''))"
    by (simp add: is_rate_limit_def py_lower_def)
  have 1: "query_claude ?b1 [] [] 3 [] = (Inl (Raised True (str ''connection reset'')), [BackendCall [] []])"
    using query_claude_propagates[of 0 3 ?b1 "[]" "[]" "[]" "Raised True (str ''connection reset'')"] n
    by simp
  have 2: "query_claude ?b2 [] [] 2 []
      = (Inl (Raised True (str ''Rate_Limit_Error'')),
         [BackendCall [] [], LogWarning (rate_limit_warning 60 0 2), Sleep 60, BackendCall [] []])"
    using query_claude_propagates[of 1 2 ?b2 "[]" "[]" "[]" "Raised True (str ''Rate_Limit_Error'')"] y
    by simp
  from n y 1 2 show ?thesis by simp
qed

lemma py_strip_spec:
  "\<exists>a z. s = a @ py_strip s @ z \<and> (\<forall>c\<in>set a. is_space c) \<and> (\<forall>c\<in>set z. is_space c)
         \<and> (py_strip s \<noteq> [] \<longrightarrow> \<not> is_space (hd (py_strip s)) \<and> \<not> is_space (last (py_strip s)))"
proof -
  let ?a = "takeWhile is_space s" and ?t = "dropWhile is_space s"
  let ?z = "rev (takeWhile is_space (rev ?t))"
  have t: "?t = py_strip s @ ?z"
  proof -
    have "py_strip s @ ?z = rev (takeWhile is_space (rev ?t) @ dropWhile is_space (rev ?t))"
      by (simp only: py_strip_def rev_append)
    also have "\<dots> = ?t" by (simp only: takeWhile_dropWhile_id rev_rev_ident)
    finally show ?thesis by (rule sym)
  qed
  have 1: "s = ?a @ py_strip s @ ?z"
  proof -
    have "s = ?a @ ?t" by simp
    with t show ?thesis by simp
  qed
  have 2: "\<forall>c\<in>set ?a. is_space c" by (auto dest: set_takeWhileD)
  have 3: "\<forall>c\<in>set ?z. is_space c" by (auto dest: set_takeWhileD)
  have 4: "\<not> is_space (hd (py_strip s)) \<and> \<not> is_space (last (py_strip s))" if ne: "py_strip s \<noteq> []"
  proof -
    from ne have d: "dropWhile is_space (rev ?t) \<noteq> []" by (simp add: py_strip_def)
    then have l: "\<not> is_space (hd (dropWhile is_space (rev ?t)))" by (rule hd_dropWhile)
    have last: "last (py_strip s) = hd (dropWhile is_space (rev ?t))"
      using d by (simp add: py_strip_def last_rev)
    have tne: "?t \<noteq> []"
    proof
      assume "?t = []"
      then have "dropWhile is_space (rev ?t) = []" by (simp only: rev.simps dropWhile.simps)
      with d show False by contradiction
    qed
    then have h: "\<not> is_space (hd ?t)" by (rule hd_dropWhile)
    from t ne have "hd ?t = hd (py_strip s)" by (metis hd_append2)
    with h l last show ?thesis by simp
  qed
  from 1 2 3 4 show ?thesis by blast
qed

text \<open>
  C6: with \<open>retries = 3\<close>, when the first two attempts raise rate-limit exceptions and the
  third succeeds, \<open>_query_claude\<close> calls the backend, warns and sleeps 60 seconds, calls
  again, warns and sleeps 120 seconds, calls a third time, and returns the text parts of
  the third attempt's messages, concatenated and stripped: what is returned is the
  concatenation without the whitespace at its two ends.
\<close>

theorem query_claude_backoff:
  assumes "b w prompt model = Inl e1" "is_Exception e1" "is_rate_limit e1"
    and "b (w @ [BackendCall prompt model, LogWarning (rate_limit_warning 60 0 3), Sleep 60])
           prompt model = Inl e2" "is_Exception e2" "is_rate_limit e2"
    and "b (w @ [BackendCall prompt model, LogWarning (rate_limit_warning 60 0 3), Sleep 60,
                 BackendCall prompt model, LogWarning (rate_limit_warning 120 1 3), Sleep 120])
           prompt model = Inr messages"
  shows "\<exists>response a z.
      query_claude b prompt model 3 w
        = (Inr response,
           w @ [BackendCall prompt model, LogWarning (rate_limit_warning 60 0 3), Sleep 60,
                BackendCall prompt model, LogWarning (rate_limit_warning 120 1 3), Sleep 120,
                BackendCall prompt model])
    \<and> response = py_strip (concat (message_parts messages))
    \<and> concat (message_parts messages) = a @ response @ z
    \<and> (\<forall>c\<in>set a. is_space c) \<and> (\<forall>c\<in>set z. is_space c)
    \<and> (response \<noteq> [] \<longrightarrow> \<not> is_space (hd response) \<and> \<not> is_space (last response))"
proof -
  have r: "py_range 3 = [0, 1, 2]" by (simp add: py_range_def upt_rec)
  have "query_claude b prompt model 3 w
      = (Inr (py_strip (concat (message_parts messages))),
         w @ [BackendCall prompt model, LogWarning (rate_limit_warning 60 0 3), Sleep 60,
              BackendCall prompt model, LogWarning (rate_limit_warning 120 1 3), Sleep 120,
              BackendCall prompt model])"
    using assms by (simp add: query_claude_def r Let_def)
  with py_strip_spec[of "concat (message_parts messages)"] show ?thesis by blast
qed

theorem query_claude_backoff_witness:
  "is_Exception (Raised True (str ''rate_limit_error'')) \<and> is_rate_limit (Raised True (str ''rate_limit_error''))
   \<and> query_claude
        (\<lambda>w prompt model. if length w < 6 then Inl (Raised True (str ''rate_limit_error''))
                           else Inr [WithContent [TextBlock (str '' {}''), OtherBlock], NoContent,
                                     WithContent [TextBlock (str ''  '')]])
        (str ''p'') (str ''m'') 3 []
      = (Inr (str ''{}''),
         [BackendCall (str ''p'') (str ''m''), LogWarning (rate_limit_warning 60 0 3), Sleep 60,
          BackendCall (str ''p'') (str ''m''), LogWarning (rate_limit_warning 120 1 3), Sleep 120,
          BackendCall (str ''p'') (str ''m'')])"
proof -
  let ?b = "\<lambda>(w :: event list) (prompt :: pystr) (model :: pystr).
      if length w < 6 then Inl (Raised True (str ''rate_limit_error''))
      else Inr [WithContent [TextBlock (str '' {}''), OtherBlock], NoContent,
                WithContent [TextBlock (str ''  '')]]"
  let ?e = "Raised True (str ''rate_limit_error'')"
  let ?msgs = "[WithContent [TextBlock (str '' {}''), OtherBlock], NoContent,
                WithContent [TextBlock (str ''  '')]]"
  have x: "is_Exception ?e" by simp
  have y: "is_rate_limit ?e" by (simp add: is_rate_limit_def py_lower_def)
  have s: "py_strip (concat (message_parts ?msgs)) = str ''{}''"
    by (simp add: py_strip_def is_space_def)
  have 1: "?b [] (str ''p'') (str ''m'') = Inl ?e" by simp
  have 2: "?b ([] @ [BackendCall (str ''p'') (str ''m''), LogWarning (rate_limit_warning 60 0 3), Sleep 60])
             (str ''p'') (str ''m'') = Inl ?e" by simp
  have 3: "?b ([] @ [BackendCall (str ''p'') (str ''m''), LogWarning (rate_limit_warning 60 0 3), Sleep 60,
                     BackendCall (str ''p'') (str ''m''), LogWarning (rate_limit_warning 120 1 3), Sleep 120])
             (str ''p'') (str ''m'') = Inr ?msgs" by simp
  from query_claude_backoff[of ?b "[]" "str ''p''" "str ''m''" ?e ?e ?msgs, OF 1 x y 2 x y 3]
  have "query_claude ?b (str ''p'') (str ''m'') 3 []
      = (Inr (py_strip (concat (message_parts ?msgs))),
         [] @ [BackendCall (str ''p'') (str ''m''), LogWarning (rate_limit_warning 60 0 3), Sleep 60,
          BackendCall (str ''p'') (str ''m''), LogWarning (rate_limit_warning 120 1 3), Sleep 120,
          BackendCall (str ''p'') (str ''m'')])"
    by blast
  with x y s show ?thesis by simp
qed

section \<open>The outermost braces\<close>

lemma dropWhile_upto:
  assumes "\<forall>x\<in>set a. P x" "\<not> P c"
  shows "dropWhile P (a @ c # z) = c # z"
  using assms by (induction a) simp_all

text \<open>
  \<open>re_search_braces\<close> finds \<open>m\<close> exactly when the string is \<open>a{mid}z\<close> with no \<open>{\<close> in
  \<open>a\<close> and no \<open>}\<close> in \<open>z\<close>, and \<open>m\<close> is \<open>{mid}\<close>: from the first \<open>{\<close> through the last
  \<open>}\<close>.
\<close>

lemma re_search_braces_iff:
  "re_search_braces s = Some m \<longleftrightarrow>
     (\<exists>a mid z. s = a @ 123 # mid @ 125 # z \<and> 123 \<notin> set a \<and> 125 \<notin> set z
                \<and> m = 123 # mid @ [125])"
proof
  assume found: "re_search_braces s = Some m"
  define a where "a = takeWhile (\<lambda>c. c \<noteq> 123) s"
  from found obtain b rest where d: "dropWhile (\<lambda>c. c \<noteq> 123) s = b # rest"
    by (cases "dropWhile (\<lambda>c. c \<noteq> 123) s") (simp_all add: re_search_braces_def)
  have b: "b = 123"
  proof -
    from d have "dropWhile (\<lambda>c. c \<noteq> 123) s \<noteq> []" by simp
    from hd_dropWhile[OF this] d show ?thesis by simp
  qed
  from found d have in_rest: "125 \<in> set rest"
    and m: "m = b # rev (dropWhile (\<lambda>c. c \<noteq> 125) (rev rest))"
    by (auto simp: re_search_braces_def split: if_splits)
  define t where "t = takeWhile (\<lambda>c. c \<noteq> 125) (rev rest)"
  define v where "v = dropWhile (\<lambda>c. c \<noteq> 125) (rev rest)"
  have tv: "t @ v = rev rest" unfolding t_def v_def by (rule takeWhile_dropWhile_id)
  have "v \<noteq> []"
  proof
    assume "v = []"
    then have "\<forall>c\<in>set (rev rest). c \<noteq> 125" unfolding v_def by simp
    with in_rest show False by auto
  qed
  then obtain x u where u: "v = x # u" by (cases v) auto
  have x: "x = 125"
  proof -
    from u have "dropWhile (\<lambda>c. c \<noteq> 125) (rev rest) \<noteq> []" unfolding v_def by simp
    from hd_dropWhile[OF this] u show ?thesis unfolding v_def by simp
  qed
  have "rev (t @ v) = rev (rev rest)" using tv by (rule arg_cong)
  then have rest: "rest = rev u @ 125 # rev t" unfolding u x by simp
  have "a @ (b # rest) = s" unfolding a_def d[symmetric] by (rule takeWhile_dropWhile_id)
  then have s: "s = a @ 123 # rev u @ 125 # rev t" unfolding b rest by (rule sym)
  have na: "123 \<notin> set a" unfolding a_def by (auto dest: set_takeWhileD)
  have nz: "125 \<notin> set (rev t)" unfolding t_def by (auto dest: set_takeWhileD)
  have "m = 123 # rev u @ [125]" using m u x b unfolding v_def by simp
  with s na nz show "\<exists>a mid z. s = a @ 123 # mid @ 125 # z \<and> 123 \<notin> set a \<and> 125 \<notin> set z
                \<and> m = 123 # mid @ [125]"
    by blast
next
  assume "\<exists>a mid z. s = a @ 123 # mid @ 125 # z \<and> 123 \<notin> set a \<and> 125 \<notin> set z
                \<and> m = 123 # mid @ [125]"
  then obtain a mid z where s: "s = a @ 123 # mid @ 125 # z" and na: "123 \<notin> set a"
    and nz: "125 \<notin> set z" and m: "m = 123 # mid @ [125]"
    by blast
  have d: "dropWhile (\<lambda>c. c \<noteq> 123) s = 123 # mid @ 125 # z"
    unfolding s using na by (intro dropWhile_upto) auto
  have "dropWhile (\<lambda>c. c \<noteq> 125) (rev z @ 125 # rev mid) = 125 # rev mid"
    using nz by (intro dropWhile_upto) auto
  then have "rev (dropWhile (\<lambda>c. c \<noteq> 125) (rev (mid @ 125 # z))) = mid @ [125]"
    by simp
  with d m show "re_search_braces s = Some m"
    by (simp add: re_search_braces_def)
qed

lemma re_search_braces_no_brace:
  assumes "123 \<notin> set s"
  shows "re_search_braces s = None"
proof (cases "re_search_braces s")
  case None
  then show ?thesis .
next
  case (Some m)
  then obtain a mid z where "s = a @ 123 # mid @ 125 # z"
    unfolding re_search_braces_iff by blast
  then have "123 \<in> set s" by simp
  with assms show ?thesis by contradiction
qed

section \<open>What the decoder returns\<close>

lemma JSONObject_loop_object:
  "JSONObject_loop n s pairs = Some (v, r) \<Longrightarrow> \<exists>kvs. v = JObject kvs"
proof (induction n arbitrary: s pairs)
  case 0
  then show ?case by simp
next
  case (Suc n)
  from Suc.prems obtain key s1 where 1: "scanstring s = Some (key, s1)"
    by (cases "scanstring s") auto
  from Suc.prems 1 obtain c s2 where 2: "skip_ws s1 = c # s2"
    by (cases "skip_ws s1") auto
  from Suc.prems 1 2 have c: "c = 58" by (auto split: if_splits)
  from Suc.prems 1 2 c obtain val s3 where 3: "scan_once n (skip_ws s2) = Some (val, s3)"
    by (cases "scan_once n (skip_ws s2)") auto
  from Suc.prems 1 2 c 3 obtain d s4 where 4: "skip_ws s3 = d # s4"
    by (cases "skip_ws s3") auto
  show ?case
  proof (cases "d = 125")
    case True
    with Suc.prems 1 2 c 3 4 show ?thesis by auto
  next
    case False
    with Suc.prems 1 2 c 3 4 have d: "d = 44" by (auto split: if_splits)
    from Suc.prems 1 2 c 3 4 d obtain q s5 where 5: "skip_ws s4 = q # s5"
      by (cases "skip_ws s4") auto
    from Suc.prems 1 2 c 3 4 d 5 have "JSONObject_loop n s5 (pairs @ [(key, val)]) = Some (v, r)"
      by (auto split: if_splits)
    then show ?thesis by (rule Suc.IH)
  qed
qed

lemma scan_once_brace:
  "scan_once (Suc n) (123 # s)
     = (case skip_ws s of
          [] \<Rightarrow> None
        | d # rest \<Rightarrow>
            if d = 125 then Some (JObject [], rest)
            else if d = 34 then JSONObject_loop n rest []
            else None)"
  by simp

lemma json_loads_brace_object:
  assumes "json_loads (123 # s) = Some v"
  shows "\<exists>kvs. v = JObject kvs"
proof -
  have ws: "skip_ws (123 # s) = 123 # s" by (simp add: skip_ws_def is_json_ws_def)
  from assms obtain r where "scan_once (Suc (length (123 # s))) (123 # s) = Some (v, r)"
    unfolding json_loads_def ws by (auto split: option.splits if_splits)
  then have "(case skip_ws s of
          [] \<Rightarrow> None
        | d # rest \<Rightarrow>
            if d = 125 then Some (JObject [], rest)
            else if d = 34 then JSONObject_loop (length (123 # s)) rest []
            else None) = Some (v, r)"
    unfolding scan_once_brace .
  then show ?thesis
    by (cases "skip_ws s") (auto split: if_splits dest: JSONObject_loop_object simp del: JSONObject_loop.simps)
qed

section \<open>Fence cleaning\<close>

lemma re_sub_fences_emit:
  assumes "\<not> (c = 96 \<and> take 2 cs = [96, 96])"
  shows "re_sub_fences (c # cs) = c # re_sub_fences cs"
proof -
  have "re_sub_fences (c # cs)
      = (if c = 96 \<and> take 2 cs = [96, 96]
         then re_sub_fences (dropWhile is_space (drop_json_tag (drop 2 cs)))
         else c # re_sub_fences cs)"
    by (rule re_sub_fences.simps)
  also have "\<dots> = c # re_sub_fences cs" using assms by (rule if_not_P)
  finally show ?thesis .
qed

lemma re_sub_fences_fence:
  "re_sub_fences (96 # 96 # 96 # rest) = re_sub_fences (dropWhile is_space (drop_json_tag rest))"
  by simp

lemma py_in_fence_Cons:
  "py_in [96, 96, 96] (c # cs) \<longleftrightarrow> (c = 96 \<and> take 2 cs = [96, 96]) \<or> py_in [96, 96, 96] cs"
proof -
  have a: "take 3 (c # cs) = [96, 96, 96] \<longleftrightarrow> c = 96 \<and> take 2 cs = [96, 96]"
    by (simp add: numeral_3_eq_3 numeral_2_eq_2)
  have l: "length [96::nat, 96, 96] = 3" by simp
  show ?thesis unfolding py_in.simps l a ..
qed

lemma re_sub_fences_head:
  assumes "re_sub_fences s = 96 # t"
  shows "\<exists>s'. s = 96 # s'"
proof (cases s)
  case Nil
  with assms show ?thesis by simp
next
  case (Cons c cs)
  show ?thesis
  proof (cases "c = 96 \<and> take 2 cs = [96, 96]")
    case True
    with Cons show ?thesis by simp
  next
    case False
    from False have "re_sub_fences (c # cs) = c # re_sub_fences cs" by (rule re_sub_fences_emit)
    with assms Cons show ?thesis by (simp del: re_sub_fences.simps)
  qed
qed

lemma re_sub_fences_two:
  assumes "take 2 cs \<noteq> [96, 96]"
  shows "take 2 (re_sub_fences cs) \<noteq> [96, 96]"
proof
  assume "take 2 (re_sub_fences cs) = [96, 96]"
  then obtain t where out: "re_sub_fences cs = 96 # 96 # t"
    by (cases "re_sub_fences cs"; cases "tl (re_sub_fences cs)") auto
  from re_sub_fences_head[OF this] obtain cs' where cs: "cs = 96 # cs'" by blast
  with assms have nb: "take 1 cs' \<noteq> [96]" by (cases cs') auto
  then have "\<not> (96 = (96::nat) \<and> take 2 cs' = [96, 96])" by (cases cs') auto
  then have "re_sub_fences (96 # cs') = 96 # re_sub_fences cs'" by (rule re_sub_fences_emit)
  with out cs have "re_sub_fences cs' = 96 # t" by simp
  from re_sub_fences_head[OF this] nb show False by auto
qed

text \<open>No fence marker is left in the text, wherever it was.\<close>

lemma re_sub_fences_no_fence: "\<not> py_in [96, 96, 96] (re_sub_fences s)"
proof (induction s rule: re_sub_fences.induct)
  case 1
  show ?case by simp
next
  case (2 c cs)
  show ?case
  proof (cases "c = 96 \<and> take 2 cs = [96, 96]")
    case True
    have "re_sub_fences (c # cs)
        = (if c = 96 \<and> take 2 cs = [96, 96]
           then re_sub_fences (dropWhile is_space (drop_json_tag (drop 2 cs)))
           else c # re_sub_fences cs)"
      by (rule re_sub_fences.simps)
    also have "\<dots> = re_sub_fences (dropWhile is_space (drop_json_tag (drop 2 cs)))"
      using True by (rule if_P)
    finally have e: "re_sub_fences (c # cs)
        = re_sub_fences (dropWhile is_space (drop_json_tag (drop 2 cs)))" .
    show ?thesis unfolding e using 2(1)[OF True] .
  next
    case False
    have ih: "\<not> py_in [96, 96, 96] (re_sub_fences cs)" using 2(2)[OF False] .
    have e: "re_sub_fences (c # cs) = c # re_sub_fences cs" using False by (rule re_sub_fences_emit)
    have "\<not> (c = 96 \<and> take 2 (re_sub_fences cs) = [96, 96])"
    proof
      assume h: "c = 96 \<and> take 2 (re_sub_fences cs) = [96, 96]"
      with False have "take 2 cs \<noteq> [96, 96]" by blast
      from re_sub_fences_two[OF this] h show False by blast
    qed
    with ih show ?thesis unfolding e py_in_fence_Cons by blast
  qed
qed

text \<open>A text without fence marker is left as it is.\<close>

lemma re_sub_fences_id: "\<not> py_in [96, 96, 96] s \<Longrightarrow> re_sub_fences s = s"
proof (induction s)
  case Nil
  show ?case by simp
next
  case (Cons c cs)
  from Cons.prems have h: "\<not> (c = 96 \<and> take 2 cs = [96, 96])" and t: "\<not> py_in [96, 96, 96] cs"
    unfolding py_in_fence_Cons by blast+
  from h have "re_sub_fences (c # cs) = c # re_sub_fences cs" by (rule re_sub_fences_emit)
  with Cons.IH[OF t] show ?case by (simp only:)
qed

lemma take2_backticks:
  "take 2 (a @ 96 # 96 # r) = [96, 96] \<Longrightarrow> take 2 (a @ [96, 96]) = [96, 96]"
  by (cases a; cases "tl a") auto

text \<open>
  The first fence marker of a text goes with its \<open>json\<close> tag and the whitespace behind
  it, whatever stands before it.
\<close>

lemma re_sub_fences_first:
  assumes "\<not> py_in [96, 96, 96] (a @ [96, 96])"
  shows "re_sub_fences (a @ 96 # 96 # 96 # rest)
           = a @ re_sub_fences (dropWhile is_space (drop_json_tag rest))"
  using assms
proof (induction a)
  case Nil
  show ?case by (simp only: append_Nil re_sub_fences_fence)
next
  case (Cons x a)
  from Cons.prems have h: "\<not> (x = 96 \<and> take 2 (a @ [96, 96]) = [96, 96])"
    and t: "\<not> py_in [96, 96, 96] (a @ [96, 96])"
    unfolding append_Cons py_in_fence_Cons by blast+
  have "\<not> (x = 96 \<and> take 2 (a @ 96 # 96 # 96 # rest) = [96, 96])"
  proof
    assume a: "x = 96 \<and> take 2 (a @ 96 # 96 # 96 # rest) = [96, 96]"
    then have "take 2 (a @ 96 # 96 # 96 # rest) = [96, 96]" by (rule conjunct2)
    then have "take 2 (a @ [96, 96]) = [96, 96]" by (rule take2_backticks)
    with a h show False by blast
  qed
  then have "re_sub_fences (x # a @ 96 # 96 # 96 # rest)
      = x # re_sub_fences (a @ 96 # 96 # 96 # rest)"
    unfolding append_Cons by (rule re_sub_fences_emit)
  with Cons.IH[OF t] show ?case by (simp only: append_Cons)
qed

section \<open>Responses that do not parse\<close>

lemmas eval_defs = extract_json_def extract_json_with_def fence_clean_def py_strip_def is_space_def
  re_search_braces_def json_loads_def skip_ws_def is_json_ws_def match_number_def match_integer_def
  match_exp_def is_digit_def parse_error_def parse_int_def nat_of_digits_def py_dict_def cons_char_def
  backslash_def hex_val_def drop_json_tag_def

text \<open>
  C7: for every raw response, and whatever the decoder \<open>json.loads\<close> is: when the
  fence-cleaned text does not decode, and its substring from the first \<open>{\<close> through the
  last \<open>}\<close>, if there is one, does not decode either, \<open>_extract_json\<close> raises the
  \<open>ValueError\<close> whose message ends with the first 400 characters of the raw response.
  So it does with the decoder of the standard library, and in particular for the
  response \<open>Sorry, I cannot help with that.\<close>
\<close>

theorem extract_json_parse_error:
  "(loads (fence_clean text) = None
      \<and> (\<forall>a mid z. fence_clean text = a @ 123 # mid @ 125 # z \<and> 123 \<notin> set a \<and> 125 \<notin> set z
              \<longrightarrow> loads (123 # mid @ [125]) = None)
     \<longrightarrow> extract_json_with loads text
           = Inl (ValueError (str ''Could not parse JSON from Claude response:\<newline>'' @ take 400 text)))
   \<and> (json_loads (fence_clean text) = None
      \<and> (\<forall>a mid z. fence_clean text = a @ 123 # mid @ 125 # z \<and> 123 \<notin> set a \<and> 125 \<notin> set z
              \<longrightarrow> json_loads (123 # mid @ [125]) = None)
     \<longrightarrow> extract_json text
           = Inl (ValueError (str ''Could not parse JSON from Claude response:\<newline>'' @ take 400 text)))
   \<and> extract_json (str ''Sorry, I cannot help with that.'')
       = Inl (ValueError (str ''Could not parse JSON from Claude response:\<newline>Sorry, I cannot help with that.''))"
proof -
  have general: "extract_json_with l text = Inl (parse_error text)"
    if 1: "l (fence_clean text) = None"
    and 2: "\<forall>a mid z. fence_clean text = a @ 123 # mid @ 125 # z \<and> 123 \<notin> set a \<and> 125 \<notin> set z
              \<longrightarrow> l (123 # mid @ [125]) = None"
    for l
  proof (cases "re_search_braces (fence_clean text)")
    case None
    with 1 show ?thesis by (simp add: extract_json_with_def)
  next
    case (Some m)
    then obtain a mid z where d: "fence_clean text = a @ 123 # mid @ 125 # z" "123 \<notin> set a"
      "125 \<notin> set z" and m: "m = 123 # mid @ [125]"
      unfolding re_search_braces_iff by blast
    have "l (123 # mid @ [125]) = None"
      using 2[rule_format, OF conjI[OF d(1) conjI[OF d(2) d(3)]]] .
    with m have "l m = None" by (simp only:)
    with 1 Some show ?thesis by (simp add: extract_json_with_def)
  qed
  have sorry_text: "extract_json (str ''Sorry, I cannot help with that.'')
      = Inl (ValueError (str ''Could not parse JSON from Claude response:\<newline>Sorry, I cannot help with that.''))"
    by (simp add: eval_defs)
  from general[of loads] general[of json_loads] sorry_text show ?thesis
    unfolding extract_json_def parse_error_def by blast
qed

theorem extract_json_parse_error_witness:
  "json_loads (fence_clean (str ''nothing {here} parses'')) = None
   \<and> re_search_braces (fence_clean (str ''nothing {here} parses'')) = Some (str ''{here}'')
   \<and> json_loads (str ''{here}'') = None
   \<and> extract_json (str ''nothing {here} parses'')
       = Inl (ValueError (str ''Could not parse JSON from Claude response:\<newline>nothing {here} parses''))"
proof -
  let ?text = "str ''nothing {here} parses''"
  have 1: "json_loads (fence_clean ?text) = None" by (simp add: eval_defs)
  have m: "re_search_braces (fence_clean ?text) = Some (str ''{here}'')" by (simp add: eval_defs)
  have n: "json_loads (str ''{here}'') = None" by (simp add: eval_defs)
  have 2: "\<forall>a mid z. fence_clean ?text = a @ 123 # mid @ 125 # z \<and> 123 \<notin> set a \<and> 125 \<notin> set z
              \<longrightarrow> json_loads (123 # mid @ [125]) = None"
  proof (intro allI impI)
    fix a mid z
    assume "fence_clean ?text = a @ 123 # mid @ 125 # z \<and> 123 \<notin> set a \<and> 125 \<notin> set z"
    then have "re_search_braces (fence_clean ?text) = Some (123 # mid @ [125])"
      unfolding re_search_braces_iff by blast
    with m have "123 # mid @ [125] = str ''{here}''" by (simp only: option.inject)
    with n show "json_loads (123 # mid @ [125]) = None" by (simp only:)
  qed
  from extract_json_parse_error[of json_loads ?text] 1 2
  have "extract_json ?text
      = Inl (ValueError (str ''Could not parse JSON from Claude response:\<newline>'' @ take 400 ?text))"
    by blast
  with 1 m n show ?thesis by simp
qed

section \<open>Responses that decode to something else than an object\<close>

text \<open>
  C8 says that \<open>_extract_json\<close> never returns a JSON value that is not an object, as its
  annotation \<open>-> dict\<close> and its docstring promise. The first attempt returns whatever
  \<open>json.loads\<close> yields for the whole cleaned text: an array, a number, a string, a
  boolean or \<open>null\<close> comes back as it is.
\<close>

theorem extract_json_non_object:
  \<open>extract_json (str ''[1, 2]'') = Inr (JArray [JInt 1, JInt 2])
   \<and> extract_json (str ''42'') = Inr (JInt 42)
   \<and> extract_json (str ''"Sorry"'') = Inr (JString (str ''Sorry''))
   \<and> extract_json (str ''null'') = Inr JNull
   \<and> extract_json (str ''```json
true
```'') = Inr (JBool True)\<close>
  by (simp add: eval_defs)

text \<open>
  The second attempt cannot do so: what decodes from the substring between the outermost
  braces is an object.
\<close>

lemma extract_json_second_attempt:
  assumes "json_loads (fence_clean text) = None"
  shows "extract_json text = Inl (parse_error text) \<or> (\<exists>kvs. extract_json text = Inr (JObject kvs))"
proof (cases "re_search_braces (fence_clean text)")
  case None
  with assms show ?thesis by (simp add: extract_json_def extract_json_with_def)
next
  case (Some m)
  then obtain mid where m: "m = 123 # mid @ [125]" unfolding re_search_braces_iff by blast
  show ?thesis
  proof (cases "json_loads m")
    case None
    with assms Some show ?thesis by (simp add: extract_json_def extract_json_with_def)
  next
    case (Some v)
    with m json_loads_brace_object[of "mid @ [125]" v] obtain kvs where "v = JObject kvs" by auto
    with assms Some \<open>re_search_braces (fence_clean text) = Some m\<close> show ?thesis
      by (simp add: extract_json_def extract_json_with_def)
  qed
qed

section \<open>Fence markers inside the text\<close>

text \<open>
  C9, as stated: only a leading and a trailing fence marker are removed, markers inside
  the text are left unchanged, and so the JSON payload is never altered. The code
  substitutes everywhere: in \<open>{"a": "x```y"}\<close> the marker inside the string value is
  deleted, and the value returned is \<open>xy\<close>, though the text as it stands decodes with the
  value \<open>x```y\<close>.
\<close>

theorem fence_clean_interior_counterexample:
  \<open>fence_clean (str ''{"a": "x```y"}'') = str ''{"a": "xy"}''
   \<and> str ''{"a": "xy"}'' \<noteq> str ''{"a": "x```y"}''
   \<and> json_loads (str ''{"a": "x```y"}'') = Some (JObject [(str ''a'', JString (str ''x```y''))])
   \<and> extract_json (str ''{"a": "x```y"}'') = Inr (JObject [(str ''a'', JString (str ''xy''))])\<close>
  by (simp add: eval_defs)

lemma py_in_fence_dropWhile:
  "py_in [96, 96, 96] (dropWhile P s) \<Longrightarrow> py_in [96, 96, 96] s"
proof (induction s)
  case Nil
  then show ?case by simp
next
  case (Cons c cs)
  show ?case
  proof (cases "P c")
    case True
    with Cons have "py_in [96, 96, 96] cs" by simp
    then show ?thesis unfolding py_in_fence_Cons by blast
  next
    case False
    with Cons.prems show ?thesis by simp
  qed
qed

lemma take2_newline:
  fixes q :: pystr
  shows "take 2 (q @ [10, 96, 96]) = [96, 96] \<Longrightarrow> take 2 q = [96, 96]"
  by (cases q; cases "tl q") auto

lemma py_in_fence_newline:
  "\<not> py_in [96, 96, 96] q \<Longrightarrow> \<not> py_in [96, 96, 96] (q @ [10, 96, 96])"
proof (induction q)
  case Nil
  have "\<not> py_in [96, 96, 96] [10, 96, 96]" unfolding py_in_fence_Cons by simp
  then show ?case by simp
next
  case (Cons x q)
  from Cons.prems have h: "\<not> (x = 96 \<and> take 2 q = [96, 96])" and t: "\<not> py_in [96, 96, 96] q"
    unfolding py_in_fence_Cons by blast+
  have "\<not> (x = 96 \<and> take 2 (q @ [10, 96, 96]) = [96, 96])"
    using h take2_newline[of q] by blast
  with Cons.IH[OF t] show ?case unfolding append_Cons py_in_fence_Cons by blast
qed

text \<open>
  A payload without fence marker between a leading \<open>```json\<close> line and a trailing
  \<open>```\<close> line comes out as the payload, stripped.
\<close>

lemma fence_clean_wrapped:
  assumes "\<not> py_in [96, 96, 96] payload"
  shows "fence_clean ([96, 96, 96, 106, 115, 111, 110, 10] @ payload @ [10, 96, 96, 96])
           = py_strip payload"
proof -
  let ?q = "dropWhile is_space payload"
  have sp: "is_space 10" "\<not> is_space 96" by (simp_all add: is_space_def)
  have "re_sub_fences ([96, 96, 96, 106, 115, 111, 110, 10] @ payload @ [10, 96, 96, 96])
      = re_sub_fences (dropWhile is_space (10 # payload @ [10, 96, 96, 96]))"
    by (simp add: drop_json_tag_def)
  also have "\<dots> = re_sub_fences (dropWhile is_space (payload @ [10, 96, 96, 96]))"
    using sp(1) by simp
  finally have start: "re_sub_fences ([96, 96, 96, 106, 115, 111, 110, 10] @ payload @ [10, 96, 96, 96])
      = re_sub_fences (dropWhile is_space (payload @ [10, 96, 96, 96]))" .
  have empty: "re_sub_fences [96, 96, 96] = []" by (simp add: drop_json_tag_def)
  show ?thesis
  proof (cases "?q = []")
    case True
    then have all: "\<forall>c\<in>set payload. is_space c" by (simp add: dropWhile_eq_Nil_conv)
    then have "dropWhile is_space (payload @ [10, 96, 96, 96]) = [96, 96, 96]"
      using sp by (simp add: dropWhile_append)
    with start empty have "re_sub_fences ([96, 96, 96, 106, 115, 111, 110, 10] @ payload @ [10, 96, 96, 96]) = []"
      by (simp only:)
    moreover have "py_strip payload = []" unfolding py_strip_def True by simp
    ultimately show ?thesis by (simp add: fence_clean_def py_strip_def del: re_sub_fences.simps)
  next
    case False
    then have ex: "\<exists>c\<in>set payload. \<not> is_space c" by (simp add: dropWhile_eq_Nil_conv)
    then have d: "dropWhile is_space (payload @ [10, 96, 96, 96]) = ?q @ [10, 96, 96, 96]"
      by (simp add: dropWhile_append)
    have "\<not> py_in [96, 96, 96] ?q" using assms py_in_fence_dropWhile by blast
    then have "\<not> py_in [96, 96, 96] ((?q @ [10]) @ [96, 96])"
      using py_in_fence_newline[of ?q] by simp
    from re_sub_fences_first[OF this, of "[]"]
    have "re_sub_fences (?q @ [10, 96, 96, 96]) = ?q @ [10]"
      by (simp add: drop_json_tag_def del: re_sub_fences.simps(2))
    with start d have out: "re_sub_fences ([96, 96, 96, 106, 115, 111, 110, 10] @ payload @ [10, 96, 96, 96])
        = ?q @ [10]" by (simp only:)
    from False have "\<not> is_space (hd ?q)" by (rule hd_dropWhile)
    with False have dq: "dropWhile is_space (?q @ [10]) = ?q @ [10]"
      by (cases ?q) simp_all
    have "py_strip (?q @ [10]) = rev (dropWhile is_space (rev ?q))"
      unfolding py_strip_def dq using sp(1) by simp
    also have "\<dots> = py_strip payload" by (simp add: py_strip_def)
    finally show ?thesis unfolding fence_clean_def out .
  qed
qed

text \<open>
  C9, amended: the fence-cleaning step deletes every fence marker, wherever it stands in
  the raw text, and strips the result. No marker is left; a text without marker is only
  stripped; the first marker of a text is deleted together with a \<open>json\<close> tag behind it
  and the whitespace after that, whatever stands before it; and a payload without marker
  that is wrapped in a leading \<open>```json\<close> line and a trailing \<open>```\<close> line is cleaned to
  the payload, stripped. A marker inside the payload is deleted like any other.
\<close>

theorem fence_clean_every_marker:
  "\<not> py_in (str ''```'') (re_sub_fences text)
   \<and> (\<not> py_in (str ''```'') text \<longrightarrow> fence_clean text = py_strip text)
   \<and> (\<not> py_in (str ''```'') (a @ str ''``'') \<longrightarrow>
        re_sub_fences (a @ str ''```'' @ rest)
          = a @ re_sub_fences (dropWhile is_space (drop_json_tag rest)))
   \<and> (\<not> py_in (str ''```'') text \<longrightarrow>
        fence_clean (str ''```json\<newline>'' @ text @ str ''\<newline>```'') = py_strip text)"
  using re_sub_fences_no_fence[of "text"] re_sub_fences_id[of "text"]
    re_sub_fences_first[of a rest] fence_clean_wrapped[of "text"]
  by (simp add: fence_clean_def del: re_sub_fences.simps)

theorem fence_clean_every_marker_witness:
  \<open>\<not> py_in (str ''```'') (str '' {"a": 1} '')
   \<and> fence_clean (str '' {"a": 1} '') = str ''{"a": 1}''
   \<and> \<not> py_in (str ''```'') (str ''{"a": "x'' @ str ''``'')
   \<and> re_sub_fences (str ''{"a": "x'' @ str ''```'' @ str ''json  y"}'') = str ''{"a": "xy"}''
   \<and> fence_clean (str ''```json\<newline>'' @ str '' {"a": 1} '' @ str ''\<newline>```'') = str ''{"a": 1}''\<close>
proof -
  have 1: \<open>\<not> py_in (str ''```'') (str '' {"a": 1} '')\<close> by simp
  have 2: \<open>\<not> py_in (str ''```'') (str ''{"a": "x'' @ str ''``'')\<close> by simp
  have s: \<open>py_strip (str '' {"a": 1} '') = str ''{"a": 1}''\<close>
    by (simp add: py_strip_def is_space_def)
  have r: \<open>str ''{"a": "x'' @ re_sub_fences (dropWhile is_space (drop_json_tag (str ''json  y"}'')))
      = str ''{"a": "xy"}''\<close>
    by (simp add: drop_json_tag_def is_space_def)
  from fence_clean_every_marker[of \<open>str '' {"a": 1} ''\<close> \<open>str ''{"a": "x''\<close> \<open>str ''json  y"}''\<close>] 1 2
  have \<open>fence_clean (str '' {"a": 1} '') = py_strip (str '' {"a": 1} '')\<close>
    \<open>re_sub_fences (str ''{"a": "x'' @ str ''```'' @ str ''json  y"}'')
      = str ''{"a": "x'' @ re_sub_fences (dropWhile is_space (drop_json_tag (str ''json  y"}'')))\<close>
    \<open>fence_clean (str ''```json\<newline>'' @ str '' {"a": 1} '' @ str ''\<newline>```'')
      = py_strip (str '' {"a": 1} '')\<close>
    by blast+
  with 1 2 s r show ?thesis by (simp only:) simp
qed

end
